theory Spec2Isabelle
  imports Main
begin

section \<open>Python strings\<close>

text \<open>
  A Python 3 \<^verbatim>\<open>str\<close> is a sequence of Unicode code points, so a string of the scraper is
  a list of naturals, one per code point. \<open>py\<close> turns an ASCII literal into such a list.
\<close>

type_synonym pystr = "nat list"

definition py :: "string \<Rightarrow> pystr" where
  "py s = map of_char s"

text \<open>
  The class \<^verbatim>\<open>\s\<close> of Python's \<^verbatim>\<open>re\<close> on a \<^verbatim>\<open>str\<close> pattern: the code points for which
  \<^verbatim>\<open>str.isspace\<close> holds (tab to carriage return, the four information separators, space,
  NEL, no-break space, and the Unicode space separators).
\<close>

definition py_isspace :: "nat \<Rightarrow> bool" where
  "py_isspace c \<longleftrightarrow>
     (9 \<le> c \<and> c \<le> 13) \<or> (28 \<le> c \<and> c \<le> 32) \<or> c = 133 \<or> c = 160 \<or> c = 5760 \<or>
     (8192 \<le> c \<and> c \<le> 8202) \<or> c = 8232 \<or> c = 8233 \<or> c = 8239 \<or> c = 8287 \<or> c = 12288"

section \<open>Filename sanitization\<close>

text \<open>
  \<^verbatim>\<open>_sanitize_filename\<close> (lines 945-961) is three steps:
  \<^verbatim>\<open>re.sub(r'[\\/*?:"<>|]', '_', filename)\<close>, then \<^verbatim>\<open>.strip('. ')\<close>, then
  \<^verbatim>\<open>re.sub(r'\s+', '_', sanitized)\<close>.
\<close>

text \<open>The nine code points of the character class: \<^verbatim>\<open>\ / * ? : " < > |\<close>.\<close>

definition invalid_chars :: "nat list" where
  "invalid_chars = [92, 47, 42, 63, 58, 34, 60, 62, 124]"

text \<open>Code point 95 is the underscore.\<close>

definition sub_invalid :: "pystr \<Rightarrow> pystr" where
  "sub_invalid s = map (\<lambda>c. if c \<in> set invalid_chars then 95 else c) s"

text \<open>\<^verbatim>\<open>str.strip(chars)\<close>: drop the leading and the trailing code points that are in \<open>chars\<close>.\<close>

definition strip_chars :: "nat list \<Rightarrow> pystr \<Rightarrow> pystr" where
  "strip_chars chars s =
     rev (dropWhile (\<lambda>c. c \<in> set chars) (rev (dropWhile (\<lambda>c. c \<in> set chars) s)))"

text \<open>
  The two halves of \<^verbatim>\<open>strip\<close>, \<^verbatim>\<open>str.lstrip(chars)\<close> and \<^verbatim>\<open>str.rstrip(chars)\<close>:
  \<open>strip_chars chars s\<close> is \<open>rstrip_chars chars (lstrip_chars chars s)\<close>.
\<close>

definition lstrip_chars :: "nat list \<Rightarrow> pystr \<Rightarrow> pystr" where
  "lstrip_chars chars s = dropWhile (\<lambda>c. c \<in> set chars) s"

definition rstrip_chars :: "nat list \<Rightarrow> pystr \<Rightarrow> pystr" where
  "rstrip_chars chars s = rev (dropWhile (\<lambda>c. c \<in> set chars) (rev s))"

text \<open>
  \<^verbatim>\<open>re.sub(r'\s+', '_', s)\<close>: scanning from the left, each maximal run of whitespace
  (the quantifier is greedy) becomes one underscore.
\<close>

function sub_spaces :: "pystr \<Rightarrow> pystr" where
  "sub_spaces [] = []"
| "sub_spaces (c # cs) =
     (if py_isspace c then 95 # sub_spaces (dropWhile py_isspace cs)
      else c # sub_spaces cs)"
  by pat_completeness auto
termination
  by (relation "measure length") (auto simp: length_dropWhile_le le_imp_less_Suc)

text \<open>Code points 46 and 32 are the period and the space of \<^verbatim>\<open>strip('. ')\<close>.\<close>

definition sanitize_filename :: "pystr \<Rightarrow> pystr" where
  "sanitize_filename filename = sub_spaces (strip_chars [46, 32] (sub_invalid filename))"

text \<open>The label of the spec's example, ``Cafe: Deja Vu?'' (its e and a accented: code points 233 and 224), as code points.\<close>

definition cafe_deja_vu :: pystr where
  "cafe_deja_vu = [67, 97, 102, 233, 58, 32, 68, 233, 106, 224, 32, 86, 117, 63]"

text \<open>The label ``Mt. Fuji'', where a period stands before the space.\<close>

definition mt_fuji :: pystr where
  "mt_fuji = py ''Mt. Fuji''"

text \<open>
  A string that \<^verbatim>\<open>strip('. ')\<close> does not eat whole: one of its code points is neither a
  period nor a space.
\<close>

definition has_anchor :: "pystr \<Rightarrow> bool" where
  "has_anchor x \<longleftrightarrow> list_ex (\<lambda>c. c \<noteq> 46 \<and> c \<noteq> 32) x"

section \<open>URL normalizer\<close>

text \<open>
  Every call site rewrites a raw URL with \<^verbatim>\<open>re.sub(r'=w\d+-h\d+', '=w0-h0', url)\<close>
  (lines 598, 629, 779, 806) and uses the result as the dedup key.

  On a \<^verbatim>\<open>str\<close> pattern \<^verbatim>\<open>\d\<close> is the set of Unicode decimal digits, a table of the
  Python runtime that grows with the Unicode version. The table is the parameter
  \<open>isdigit\<close>; the theorems ask of it only what every version has: below code point
  128 the decimal digits are \<^verbatim>\<open>0\<close> to \<^verbatim>\<open>9\<close> (\<open>digit_table\<close>).
\<close>

definition ascii_digit :: "nat \<Rightarrow> bool" where
  "ascii_digit c \<longleftrightarrow> 48 \<le> c \<and> c \<le> 57"

definition digit_table :: "(nat \<Rightarrow> bool) \<Rightarrow> bool" where
  "digit_table isdigit \<longleftrightarrow> (\<forall>c<128. isdigit c = ascii_digit c)"

text \<open>
  One match attempt of \<^verbatim>\<open>=w\d+-h\d+\<close> at the start of \<open>s\<close>: the text after the match,
  or \<open>None\<close>. Both \<^verbatim>\<open>\d+\<close> are greedy, and giving back digits cannot help (what follows
  the first run must be the hyphen), so the attempt is deterministic. Code points: 61 is
  \<^verbatim>\<open>=\<close>, 119 is \<^verbatim>\<open>w\<close>, 45 is \<^verbatim>\<open>-\<close>, 104 is \<^verbatim>\<open>h\<close>.
\<close>

definition match_dims :: "(nat \<Rightarrow> bool) \<Rightarrow> pystr \<Rightarrow> pystr option" where
  "match_dims isdigit s =
     (case s of
        e # w # r1 \<Rightarrow>
          if e = 61 \<and> w = 119 \<and> takeWhile isdigit r1 \<noteq> [] then
            (case dropWhile isdigit r1 of
               m # h # r2 \<Rightarrow>
                 if m = 45 \<and> h = 104 \<and> takeWhile isdigit r2 \<noteq> []
                 then Some (dropWhile isdigit r2) else None
             | _ \<Rightarrow> None)
          else None
      | _ \<Rightarrow> None)"

lemma match_dims_shorter: "match_dims isdigit s = Some r \<Longrightarrow> length r < length s"
proof -
  assume m: "match_dims isdigit s = Some r"
  then obtain e w r1 where s: "s = e # w # r1"
    by (auto simp: match_dims_def split: list.splits)
  from m s obtain m' h r2 where d: "dropWhile isdigit r1 = m' # h # r2" and r: "r = dropWhile isdigit r2"
    by (auto simp: match_dims_def split: list.splits if_splits)
  have "length r \<le> length r2" using r by (simp add: length_dropWhile_le)
  moreover have "length (dropWhile isdigit r1) \<le> length r1" by (rule length_dropWhile_le)
  ultimately show ?thesis using s d by simp
qed

text \<open>
  \<^verbatim>\<open>re.sub\<close>: scan from the left; where the pattern matches, emit \<^verbatim>\<open>=w0-h0\<close> and go on
  after the match; elsewhere copy one code point and go on with the next.
\<close>

function sub_dims :: "(nat \<Rightarrow> bool) \<Rightarrow> pystr \<Rightarrow> pystr" where
  "sub_dims isdigit [] = []"
| "sub_dims isdigit (c # cs) =
     (case match_dims isdigit (c # cs) of
        Some rest \<Rightarrow> py ''=w0-h0'' @ sub_dims isdigit rest
      | None \<Rightarrow> c # sub_dims isdigit cs)"
  by pat_completeness auto
termination
  by (relation "measure (\<lambda>(isdigit, s). length s)") (auto dest: match_dims_shorter)

text \<open>
  A dimension segment: \<^verbatim>\<open>=w\<close>, one or more digits, \<^verbatim>\<open>-h\<close>, one or more digits.
  \<open>has_dims\<close> says that a URL contains one somewhere.
\<close>

definition dims_segment :: "pystr \<Rightarrow> pystr \<Rightarrow> pystr" where
  "dims_segment a b = py ''=w'' @ a @ py ''-h'' @ b"

definition digit_run :: "(nat \<Rightarrow> bool) \<Rightarrow> pystr \<Rightarrow> bool" where
  "digit_run isdigit a \<longleftrightarrow> a \<noteq> [] \<and> list_all isdigit a"

definition has_dims :: "(nat \<Rightarrow> bool) \<Rightarrow> pystr \<Rightarrow> bool" where
  "has_dims isdigit url \<longleftrightarrow>
     (\<exists>p a b s. digit_run isdigit a \<and> digit_run isdigit b \<and> url = p @ dims_segment a b @ s)"

text \<open>The same question decided by running the match attempt at every position.\<close>

fun dims_anywhere :: "(nat \<Rightarrow> bool) \<Rightarrow> pystr \<Rightarrow> bool" where
  "dims_anywhere isdigit [] = False"
| "dims_anywhere isdigit (c # cs) =
     (match_dims isdigit (c # cs) \<noteq> None \<or> dims_anywhere isdigit cs)"

section \<open>The world outside the scraper\<close>

text \<open>
  The scraper reads a clock, writes files and fetches URLs. The state it changes is the
  record \<open>world\<close>; what the outside decides (which operation fails, what the server
  answers, what the clock says) is the record \<open>env\<close>, a parameter of every operation.
  An operation that raises in Python returns \<open>None\<close> here; every \<^verbatim>\<open>try/except\<close> of the
  source is a \<open>case\<close> on that result.
\<close>

type_synonym path = pystr
type_synonym bytes = "nat list"

text \<open>A row of the CSV ledger: the header, or \<^verbatim>\<open>[index, url, timestamp]\<close>.\<close>

datatype csv_row = Header_Row | Url_Row nat pystr pystr

text \<open>The answer of \<^verbatim>\<open>requests.get\<close>: a transport error, or a status code and a body.\<close>

datatype response = Transport_Error | Http nat bytes

record world =
  dirs :: "path set"
  files :: "path \<Rightarrow> bytes option"
  csvs :: "path \<Rightarrow> csv_row list option"
  requests :: "pystr list"
  searches :: "pystr list"

text \<open>
  \<open>requests\<close> logs every call of \<^verbatim>\<open>requests.get\<close>, oldest first, and \<open>searches\<close>
  every call of \<^verbatim>\<open>search_location\<close> (the browser is sent to the maps page and the
  location is typed), by the location searched for.

  The fields of \<open>env\<close>: \<open>is_decimal\<close> is the \<^verbatim>\<open>\d\<close> table; \<open>url_ext\<close> is
  \<^verbatim>\<open>os.path.splitext(unquote(urlparse(url).path))[1]\<close>, a composition of library calls;
  \<open>respond url k\<close> is the answer to the attempt number \<open>k\<close> (from 0) at \<open>url\<close>;
  \<open>makedirs_fails\<close>, \<open>create_fails\<close>, \<open>write_fails\<close> say for which path
  \<^verbatim>\<open>os.makedirs\<close>, \<^verbatim>\<open>open(path, 'w')\<close> and \<^verbatim>\<open>open(path, 'wb')\<close> with its write raise;
  \<open>append_fails path index\<close> says whether appending the entry \<open>index\<close> raises;
  \<open>file_stamp\<close> and \<open>row_stamp index\<close> are the clock readings
  (\<^verbatim>\<open>datetime.now().strftime\<close>) when the ledger is created and when entry \<open>index\<close> is
  appended; \<open>set_order\<close> ranks the elements of a Python set for its iteration (see
  \<open>list_of_set\<close> below).
\<close>

record env =
  is_decimal :: "nat \<Rightarrow> bool"
  url_ext :: "pystr \<Rightarrow> pystr"
  respond :: "pystr \<Rightarrow> nat \<Rightarrow> response"
  makedirs_fails :: "path \<Rightarrow> bool"
  create_fails :: "path \<Rightarrow> bool"
  write_fails :: "path \<Rightarrow> bool"
  append_fails :: "path \<Rightarrow> nat \<Rightarrow> bool"
  file_stamp :: pystr
  row_stamp :: "nat \<Rightarrow> pystr"
  set_order :: "pystr list \<Rightarrow> pystr \<Rightarrow> nat"

text \<open>The fields of \<^verbatim>\<open>GoogleMapsImageScraper\<close> the modelled methods read (lines 107-110).\<close>

record scraper =
  download_dir :: path
  save_csv :: bool

text \<open>\<^verbatim>\<open>os.path.exists\<close>, \<^verbatim>\<open>os.path.join\<close> (POSIX flavour; 47 is the slash) and \<^verbatim>\<open>str\<close> of an
  index.\<close>

definition path_exists :: "world \<Rightarrow> path \<Rightarrow> bool" where
  "path_exists w p \<longleftrightarrow> p \<in> dirs w \<or> files w p \<noteq> None \<or> csvs w p \<noteq> None"

definition path_join :: "path \<Rightarrow> path \<Rightarrow> path" where
  "path_join a b =
     (if b \<noteq> [] \<and> hd b = 47 then b
      else if a = [] \<or> last a = 47 then a @ b
      else a @ [47] @ b)"

fun str_nat :: "nat \<Rightarrow> pystr" where
  "str_nat n = (if n < 10 then [48 + n] else str_nat (n div 10) @ [48 + n mod 10])"

declare str_nat.simps [simp del]

text \<open>
  \<^verbatim>\<open>if not os.path.exists(location_dir): os.makedirs(location_dir)\<close> (lines 50-51, 150-151
  and 841-842). Only the leaf directory is recorded.
\<close>

definition ensure_dir :: "env \<Rightarrow> path \<Rightarrow> world \<Rightarrow> world option" where
  "ensure_dir e location_dir w =
     (if path_exists w location_dir then Some w
      else if makedirs_fails e location_dir then None
      else Some (w\<lparr>dirs := insert location_dir (dirs w)\<rparr>))"

section \<open>Ledger\<close>

text \<open>
  \<^verbatim>\<open>create_csv_file\<close> (lines 140-164): make the location directory, name the file after the
  sanitized label and the clock, and open it for writing (which empties an existing file)
  to write the header. An exception of \<^verbatim>\<open>os.makedirs\<close> or \<^verbatim>\<open>open\<close> is not caught here.
\<close>

definition csv_file_path :: "scraper \<Rightarrow> env \<Rightarrow> pystr \<Rightarrow> path" where
  "csv_file_path sc e location_name =
     path_join (path_join (download_dir sc) (sanitize_filename location_name))
       (sanitize_filename location_name @ py ''_urls_'' @ file_stamp e @ py ''.csv'')"

definition create_csv_file :: "scraper \<Rightarrow> env \<Rightarrow> pystr \<Rightarrow> world \<Rightarrow> (path \<times> world) option" where
  "create_csv_file sc e location_name w =
     (case ensure_dir e (path_join (download_dir sc) (sanitize_filename location_name)) w of
        None \<Rightarrow> None
      | Some w1 \<Rightarrow>
          let csv_path = csv_file_path sc e location_name in
          if create_fails e csv_path then None
          else Some (csv_path, w1\<lparr>csvs := (csvs w1)(csv_path \<mapsto> [Header_Row])\<rparr>))"

text \<open>
  The body of the \<^verbatim>\<open>try\<close> of \<^verbatim>\<open>save_url_to_csv\<close> (lines 179-191): open for appending
  (which creates a missing file), write one row, flush. A failure is taken to leave the
  file as it was.
\<close>

definition append_row :: "env \<Rightarrow> path \<Rightarrow> pystr \<Rightarrow> nat \<Rightarrow> world \<Rightarrow> world option" where
  "append_row e csv_path url index w =
     (if append_fails e csv_path index then None
      else Some (w\<lparr>csvs := (csvs w)(csv_path \<mapsto>
             (case csvs w csv_path of None \<Rightarrow> [] | Some rows \<Rightarrow> rows)
             @ [Url_Row index url (row_stamp e index)])\<rparr>))"

text \<open>
  \<^verbatim>\<open>save_url_to_csv\<close> (lines 166-195): \<^verbatim>\<open>True\<close> after the \<^verbatim>\<open>try\<close> body, \<^verbatim>\<open>False\<close> from
  the \<^verbatim>\<open>except Exception\<close> handler. The result type has no exception.
\<close>

definition save_url_to_csv :: "env \<Rightarrow> path \<Rightarrow> pystr \<Rightarrow> nat \<Rightarrow> world \<Rightarrow> world \<times> bool" where
  "save_url_to_csv e csv_path url index w =
     (case append_row e csv_path url index w of
        Some w' \<Rightarrow> (w', True)
      | None \<Rightarrow> (w, False))"

text \<open>The entries of a ledger, as \<open>(index, url)\<close> pairs in file order.\<close>

fun row_entry :: "csv_row \<Rightarrow> (nat \<times> pystr) list" where
  "row_entry Header_Row = []"
| "row_entry (Url_Row index url stamp) = [(index, url)]"

definition ledger_entries :: "world \<Rightarrow> path \<Rightarrow> (nat \<times> pystr) list" where
  "ledger_entries w csv_path =
     (case csvs w csv_path of None \<Rightarrow> [] | Some rows \<Rightarrow> concat (map row_entry rows))"

section \<open>Extractor\<close>

text \<open>
  The browser is outside the program. What one run sees of it is an observation: for each
  element a selector returns, what reading it gave; for each script call, its result; for
  each attempt to go on, whether a next control was clicked. The extractor is a function
  of these observations.
\<close>

text \<open>
  Reading one \<^verbatim>\<open>img\<close> element: it is not displayed; or its \<^verbatim>\<open>src\<close> was read (\<^verbatim>\<open>None\<close>
  when the attribute is missing or the three stale retries of lines 574-593 ran out);
  or it raised \<^verbatim>\<open>StaleElementReferenceException\<close>; or it raised something else.
\<close>

datatype elem_read = Not_Displayed | Src "pystr option" | Stale | Raised

text \<open>\<^verbatim>\<open>"googleusercontent.com" in url\<close>.\<close>

fun contains :: "pystr \<Rightarrow> pystr \<Rightarrow> bool" where
  "contains sub [] = (sub = [])"
| "contains sub (c # cs) = (take (length sub) (c # cs) = sub \<or> contains sub cs)"

definition is_image_url :: "pystr \<Rightarrow> bool" where
  "is_image_url url = contains (py ''googleusercontent.com'') url"

text \<open>
  The variables of \<^verbatim>\<open>extract_image_urls\<close> (lines 420-423 and 544-546, \<^verbatim>\<open>found_image\<close> of
  line 560). \<^verbatim>\<open>image_urls\<close> is a Python set; the state keeps its elements in the order
  of insertion, without repetition.
\<close>

record loop_state =
  image_urls :: "pystr list"
  url_index :: nat
  consecutive_errors :: nat
  last_count :: nat
  scroll_attempts :: nat
  found_image :: bool

definition initial_state :: loop_state where
  "initial_state =
     \<lparr>image_urls = [], url_index = 1, consecutive_errors = 0, last_count = 0,
      scroll_attempts = 0, found_image = False\<rparr>"

text \<open>
  \<^verbatim>\<open>list(image_urls)\<close> (lines 753 and 824): the elements of the set in the order in which
  Python iterates over it. That order follows the hashes of the strings, which change
  from one process to the next, and the insertions made; it is not the order of
  insertion. The outside decides it: \<open>set_order e xs\<close> ranks the elements of the set
  built by the insertions \<open>xs\<close>, and the list is \<open>xs\<close> sorted by rank. Whatever the
  ranking, the list has each element of the set once.
\<close>

definition list_of_set :: "env \<Rightarrow> pystr list \<Rightarrow> pystr list" where
  "list_of_set e xs = sort_key (set_order e xs) xs"

text \<open>
  Lines 600-608 (and 631-638, 807-813): a URL not yet in the set is added and, when a
  ledger is open, saved under the next index; the index advances whatever
  \<^verbatim>\<open>save_url_to_csv\<close> returned.
\<close>

definition add_url :: "env \<Rightarrow> path option \<Rightarrow> pystr \<Rightarrow> world \<times> loop_state \<Rightarrow> world \<times> loop_state" where
  "add_url e csv_path high_res_url ws =
     (case ws of (w, s) \<Rightarrow>
        if high_res_url \<in> set (image_urls s) then (w, s)
        else
          let s1 = s\<lparr>image_urls := image_urls s @ [high_res_url]\<rparr> in
          (case csv_path of
             None \<Rightarrow> (w, s1)
           | Some p \<Rightarrow>
               (fst (save_url_to_csv e p high_res_url (url_index s1) w),
                s1\<lparr>url_index := url_index s1 + 1\<rparr>)))"

definition mark_found :: "world \<times> loop_state \<Rightarrow> world \<times> loop_state" where
  "mark_found ws = (case ws of (w, s) \<Rightarrow> (w, s\<lparr>found_image := True, consecutive_errors := 0\<rparr>))"

text \<open>
  One selector of the gallery loop (lines 562-615): the elements in order. A hidden element
  is skipped; the first displayed element whose \<^verbatim>\<open>src\<close> is non-empty and contains the host
  name is taken and ends this selector (\<^verbatim>\<open>break\<close> leaves the loop over the elements, not the
  loop over the selectors); any exception ends this selector too (handler of line 613).
\<close>

fun read_elements :: "env \<Rightarrow> path option \<Rightarrow> elem_read list \<Rightarrow> world \<times> loop_state \<Rightarrow> world \<times> loop_state" where
  "read_elements e csv_path [] ws = ws"
| "read_elements e csv_path (Not_Displayed # rest) ws = read_elements e csv_path rest ws"
| "read_elements e csv_path (Stale # rest) ws = ws"
| "read_elements e csv_path (Raised # rest) ws = ws"
| "read_elements e csv_path (Src None # rest) ws = read_elements e csv_path rest ws"
| "read_elements e csv_path (Src (Some current_url) # rest) ws =
     (if current_url \<noteq> [] \<and> is_image_url current_url
      then mark_found (add_url e csv_path (sub_dims (is_decimal e) current_url) ws)
      else read_elements e csv_path rest ws)"

text \<open>The script fallback of the loop (lines 617-643) over the list the script returned.\<close>

fun read_script :: "env \<Rightarrow> path option \<Rightarrow> pystr list \<Rightarrow> world \<times> loop_state \<Rightarrow> world \<times> loop_state" where
  "read_script e csv_path [] ws = ws"
| "read_script e csv_path (url # rest) ws =
     read_script e csv_path rest
       (if is_image_url url then mark_found (add_url e csv_path (sub_dims (is_decimal e) url) ws)
        else ws)"

text \<open>
  What one iteration of \<^verbatim>\<open>while True\<close> sees: the reads of each of the six image selectors
  (a selector that timed out has no reads), the result of the script (\<open>None\<close> when it
  raised; it is consulted only when no selector found an image), and whether one of the
  next-button selectors was clicked (lines 657-714).
\<close>

record step_obs =
  selector_reads :: "elem_read list list"
  script_imgs :: "pystr list option"
  next_clicked :: bool

datatype stop = Error_Budget | Max_Images | No_Next | Stagnation

text \<open>\<^verbatim>\<open>max_images and len(image_urls) >= max_images\<close>: \<^verbatim>\<open>None\<close> and 0 are falsy.\<close>

definition cap_reached :: "int option \<Rightarrow> nat \<Rightarrow> bool" where
  "cap_reached max_images n =
     (case max_images of None \<Rightarrow> False | Some m \<Rightarrow> m \<noteq> 0 \<and> m \<le> int n)"

text \<open>
  One iteration (lines 549-731). Every statement of the body that can raise stands in an
  inner \<^verbatim>\<open>try\<close> whose handler catches \<^verbatim>\<open>Exception\<close>, so the two outer handlers (lines
  733-746) are not reached. The result is the new state and, when the iteration ended in
  \<^verbatim>\<open>break\<close>, why.
\<close>

definition gallery_step ::
  "env \<Rightarrow> path option \<Rightarrow> int option \<Rightarrow> step_obs \<Rightarrow> world \<times> loop_state \<Rightarrow>
   (world \<times> loop_state) \<times> stop option" where
  "gallery_step e csv_path max_images obs ws =
     (case ws of (w0, s0) \<Rightarrow>
      case fold (read_elements e csv_path) (take 6 (selector_reads obs))
             (w0, s0\<lparr>found_image := False\<rparr>) of (w1, s1) \<Rightarrow>
      case (if \<not> found_image s1
            then (case script_imgs obs of
                    None \<Rightarrow> (w1, s1)
                  | Some all_imgs \<Rightarrow> read_script e csv_path all_imgs (w1, s1))
            else (w1, s1)) of (w2, s2) \<Rightarrow>
      let s3 = (if \<not> found_image s2
                then s2\<lparr>consecutive_errors := consecutive_errors s2 + 1\<rparr> else s2) in
      if \<not> found_image s3 \<and> 5 \<le> consecutive_errors s3 then ((w2, s3), Some Error_Budget)
      else if cap_reached max_images (length (image_urls s3)) then ((w2, s3), Some Max_Images)
      else if \<not> next_clicked obs then ((w2, s3), Some No_Next)
      else
        let s4 = s3\<lparr>scroll_attempts :=
                       (if length (image_urls s3) = last_count s3
                        then scroll_attempts s3 + 1 else 0),
                     last_count := length (image_urls s3)\<rparr> in
        if 30 \<le> scroll_attempts s4 then ((w2, s4), Some Stagnation)
        else ((w2, s4), None))"

text \<open>
  How many URLs the observations of one iteration can add at most: one for each selector
  read (six at most) or, when no selector found an image, each URL of the script.
\<close>

definition step_capacity :: "step_obs \<Rightarrow> nat" where
  "step_capacity obs =
     max (length (take 6 (selector_reads obs)))
         (case script_imgs obs of None \<Rightarrow> 0 | Some all_imgs \<Rightarrow> length all_imgs)"

text \<open>
  The loop over the observations of the successive iterations. The observations of a run
  are a finite list; when the list ends before a \<^verbatim>\<open>break\<close>, the loop is still running and
  the result has no stop reason.
\<close>

fun gallery_loop ::
  "env \<Rightarrow> path option \<Rightarrow> int option \<Rightarrow> step_obs list \<Rightarrow> world \<times> loop_state \<Rightarrow>
   (world \<times> loop_state) \<times> stop option" where
  "gallery_loop e csv_path max_images [] ws = (ws, None)"
| "gallery_loop e csv_path max_images (obs # rest) ws =
     (case gallery_step e csv_path max_images obs ws of
        (ws', Some why) \<Rightarrow> (ws', Some why)
      | (ws', None) \<Rightarrow> gallery_loop e csv_path max_images rest ws')"

subsection \<open>Direct scan\<close>

text \<open>
  \<^verbatim>\<open>_extract_images_direct\<close> (lines 755-824). The script's URLs are added to the set and,
  when a ledger path was passed, each is saved, new or not (lines 777-785). With fewer
  than five URLs the four CSS selectors are read too, with the dedup test
  (lines 790-817): a stale element is skipped, any other exception ends its selector.
  An exception of the script leaves the function with what the set holds.
\<close>

definition add_script_url :: "env \<Rightarrow> path option \<Rightarrow> pystr \<Rightarrow> world \<times> loop_state \<Rightarrow> world \<times> loop_state" where
  "add_script_url e csv_path high_res_url ws =
     (case ws of (w, s) \<Rightarrow>
        let s1 = (if high_res_url \<in> set (image_urls s) then s
                  else s\<lparr>image_urls := image_urls s @ [high_res_url]\<rparr>) in
        (case csv_path of
           None \<Rightarrow> (w, s1)
         | Some p \<Rightarrow>
             (fst (save_url_to_csv e p high_res_url (url_index s1) w),
              s1\<lparr>url_index := url_index s1 + 1\<rparr>)))"

fun direct_script :: "env \<Rightarrow> path option \<Rightarrow> pystr list \<Rightarrow> world \<times> loop_state \<Rightarrow> world \<times> loop_state" where
  "direct_script e csv_path [] ws = ws"
| "direct_script e csv_path (url # rest) ws =
     direct_script e csv_path rest
       (if is_image_url url then add_script_url e csv_path (sub_dims (is_decimal e) url) ws else ws)"

fun direct_elements :: "env \<Rightarrow> path option \<Rightarrow> elem_read list \<Rightarrow> world \<times> loop_state \<Rightarrow> world \<times> loop_state" where
  "direct_elements e csv_path [] ws = ws"
| "direct_elements e csv_path (Not_Displayed # rest) ws = direct_elements e csv_path rest ws"
| "direct_elements e csv_path (Stale # rest) ws = direct_elements e csv_path rest ws"
| "direct_elements e csv_path (Raised # rest) ws = ws"
| "direct_elements e csv_path (Src None # rest) ws = direct_elements e csv_path rest ws"
| "direct_elements e csv_path (Src (Some url) # rest) ws =
     direct_elements e csv_path rest
       (if url \<noteq> [] \<and> is_image_url url
        then add_url e csv_path (sub_dims (is_decimal e) url) ws else ws)"

record direct_obs =
  js_images :: "pystr list option"
  css_reads :: "elem_read list list"

definition extract_images_direct ::
  "env \<Rightarrow> path option \<Rightarrow> direct_obs \<Rightarrow> world \<Rightarrow> world \<times> pystr list" where
  "extract_images_direct e csv_path obs w =
     (case js_images obs of
        None \<Rightarrow> (w, list_of_set e [])
      | Some imgs \<Rightarrow>
          (case direct_script e csv_path imgs (w, initial_state) of (w1, s1) \<Rightarrow>
           case (if length (image_urls s1) < 5
                 then fold (direct_elements e csv_path) (take 4 (css_reads obs)) (w1, s1)
                 else (w1, s1)) of (w2, s2) \<Rightarrow>
           (w2, list_of_set e (image_urls s2))))"

subsection \<open>The whole extraction\<close>

text \<open>
  Lines 534-537: the fallback's URLs are saved under the indices 1, 2, ... in list order.
\<close>

fun save_enumerated :: "env \<Rightarrow> path \<Rightarrow> nat \<Rightarrow> pystr list \<Rightarrow> world \<Rightarrow> world" where
  "save_enumerated e csv_path i [] w = w"
| "save_enumerated e csv_path i (url # rest) w =
     save_enumerated e csv_path (i + 1) rest (fst (save_url_to_csv e csv_path url (i + 1) w))"

text \<open>
  What a run of \<^verbatim>\<open>extract_image_urls\<close> sees: whether the gallery view was entered when the
  attempts of lines 436-527 are over (line 530), the observations of the direct scan, and
  those of the iterations of the gallery loop.
\<close>

record extract_obs =
  in_gallery :: bool
  direct :: direct_obs
  steps :: "step_obs list"

text \<open>
  A run raises (only \<^verbatim>\<open>create_csv_file\<close> can), is cut while its loop is still running, or
  returns its list of URLs; the stop reason of the gallery loop is kept beside the list
  (\<open>None\<close> for the direct scan).
\<close>

datatype 'a outcome = Raises | Running | Returns 'a

definition extract_image_urls ::
  "scraper \<Rightarrow> env \<Rightarrow> extract_obs \<Rightarrow> int option \<Rightarrow> pystr option \<Rightarrow> world \<Rightarrow>
   world \<times> (pystr list \<times> stop option) outcome" where
  "extract_image_urls sc e obs max_images location_name w =
     (case (case location_name of
              Some name \<Rightarrow>
                if save_csv sc \<and> name \<noteq> []
                then map_option (\<lambda>(p, w'). (Some p, w')) (create_csv_file sc e name w)
                else Some (None, w)
            | None \<Rightarrow> Some (None, w)) of
        None \<Rightarrow> (w, Raises)
      | Some (csv_path, w0) \<Rightarrow>
          if \<not> in_gallery obs then
            (case extract_images_direct e None (direct obs) w0 of (w1, direct_urls) \<Rightarrow>
               ((case csv_path of
                   Some p \<Rightarrow> save_enumerated e p 0 direct_urls w1
                 | None \<Rightarrow> w1),
                Returns (direct_urls, None)))
          else
            (case gallery_loop e csv_path max_images (steps obs) (w0, initial_state) of
               ((w1, s1), None) \<Rightarrow> (w1, Running)
             | ((w1, s1), Some why) \<Rightarrow> (w1, Returns (list_of_set e (image_urls s1), Some why))))"

text \<open>
  The entries a run would write for its list of URLs, numbered from 1 in list order, and
  those of them whose append does not fail.
\<close>

definition numbered :: "pystr list \<Rightarrow> (nat \<times> pystr) list" where
  "numbered urls = zip [1..<length urls + 1] urls"

definition kept :: "env \<Rightarrow> path \<Rightarrow> (nat \<times> pystr) list \<Rightarrow> (nat \<times> pystr) list" where
  "kept e csv_path entries = filter (\<lambda>(i, url). \<not> append_fails e csv_path i) entries"

text \<open>
  The invariant of the gallery loop with a ledger at \<open>p\<close>: the ledger holds the kept
  entries of the URLs found so far, the next index is their number plus one, and no URL
  is repeated.
\<close>

definition ledger_ok :: "env \<Rightarrow> path \<Rightarrow> world \<times> loop_state \<Rightarrow> bool" where
  "ledger_ok e p ws \<longleftrightarrow>
     ledger_entries (fst ws) p = kept e p (numbered (image_urls (snd ws))) \<and>
     url_index (snd ws) = length (image_urls (snd ws)) + 1 \<and>
     distinct (image_urls (snd ws))"

text \<open>
  Two worlds that differ at most in the rows of their ledgers: the same directories,
  image files, requests and searches, and the same ledger files.
\<close>

definition same_but_rows :: "world \<Rightarrow> world \<Rightarrow> bool" where
  "same_but_rows w1 w2 \<longleftrightarrow>
     dirs w1 = dirs w2 \<and> files w1 = files w2 \<and> requests w1 = requests w2 \<and>
     searches w1 = searches w2 \<and> dom (csvs w1) = dom (csvs w2)"

section \<open>Download manager\<close>

text \<open>
  The retry loop of \<^verbatim>\<open>download_image\<close> (lines 865-876): \<^verbatim>\<open>for retry in range(max_retries)\<close>.
  Each pass calls \<^verbatim>\<open>requests.get\<close>; \<^verbatim>\<open>raise_for_status\<close> raises on a status from 400 to 599,
  and that \<^verbatim>\<open>HTTPError\<close> is a \<^verbatim>\<open>RequestException\<close>, so the handler catches it like a
  transport error: another pass while \<^verbatim>\<open>retry < max_retries - 1\<close>, else the exception goes
  on (the result \<open>None\<close>).
\<close>

definition max_retries :: nat where
  "max_retries = 3"

fun fetch_retries :: "env \<Rightarrow> pystr \<Rightarrow> nat list \<Rightarrow> world \<Rightarrow> world \<times> bytes option" where
  "fetch_retries e url [] w = (w, None)"
| "fetch_retries e url (retry # rest) w =
     (let w' = w\<lparr>requests := requests w @ [url]\<rparr> in
      case respond e url retry of
        Http status content \<Rightarrow>
          if 400 \<le> status \<and> status < 600
          then (if retry < max_retries - 1 then fetch_retries e url rest w' else (w', None))
          else (w', Some content)
      | Transport_Error \<Rightarrow>
          if retry < max_retries - 1 then fetch_retries e url rest w' else (w', None))"

text \<open>Lines 844-853: the extension (default \<^verbatim>\<open>.jpg\<close>) and the path of the image file.\<close>

definition file_ext :: "env \<Rightarrow> pystr \<Rightarrow> pystr" where
  "file_ext e url = (let ext = url_ext e url in if ext = [] \<or> ext = py ''.'' then py ''.jpg'' else ext)"

definition image_path :: "scraper \<Rightarrow> env \<Rightarrow> pystr \<Rightarrow> pystr \<Rightarrow> nat \<Rightarrow> path" where
  "image_path sc e url location_name index =
     path_join (path_join (download_dir sc) (sanitize_filename location_name))
       (sanitize_filename location_name @ py ''_'' @ str_nat index @ file_ext e url)"

text \<open>Lines 884-885: \<^verbatim>\<open>open(filepath, 'wb')\<close> and the write.\<close>

definition write_image :: "env \<Rightarrow> path \<Rightarrow> bytes \<Rightarrow> world \<Rightarrow> world option" where
  "write_image e filepath content w =
     (if write_fails e filepath then None
      else Some (w\<lparr>files := (files w)(filepath \<mapsto> content)\<rparr>))"

text \<open>\<^verbatim>\<open>os.path.exists(filepath) and os.path.getsize(filepath) > 0\<close> (line 888).\<close>

definition nonempty_file :: "world \<Rightarrow> path \<Rightarrow> bool" where
  "nonempty_file w filepath \<longleftrightarrow>
     path_exists w filepath \<and> (case files w filepath of Some b \<Rightarrow> 0 < length b | None \<Rightarrow> False)"

text \<open>
  \<^verbatim>\<open>download_image\<close> (lines 826-903), in the order of the source: the directory, the
  fetch with its retries, then the test whether the file exists, then the write and the
  size check. Every exception ends in one of the two handlers, which return \<^verbatim>\<open>False\<close>.
\<close>

definition download_image ::
  "scraper \<Rightarrow> env \<Rightarrow> pystr \<Rightarrow> pystr \<Rightarrow> nat \<Rightarrow> world \<Rightarrow> world \<times> bool" where
  "download_image sc e url location_name index w =
     (case ensure_dir e (path_join (download_dir sc) (sanitize_filename location_name)) w of
        None \<Rightarrow> (w, False)
      | Some w1 \<Rightarrow>
          let filepath = image_path sc e url location_name index in
          (case fetch_retries e url [0..<max_retries] w1 of
             (w2, None) \<Rightarrow> (w2, False)
           | (w2, Some content) \<Rightarrow>
               if path_exists w2 filepath then (w2, True)
               else
                 (case write_image e filepath content w2 of
                    None \<Rightarrow> (w2, False)
                  | Some w3 \<Rightarrow> (w3, nonempty_file w3 filepath))))"

text \<open>
  \<^verbatim>\<open>download_all_images\<close> (lines 905-943). The pool runs the submitted calls on several
  threads; the model runs them one after the other in the order of submission, which is
  one of the schedules. \<^verbatim>\<open>ThreadPoolExecutor\<close> raises \<^verbatim>\<open>ValueError\<close> for
  \<^verbatim>\<open>max_workers <= 0\<close> (the result \<open>None\<close>). \<open>download_each\<close> gives the results of the
  futures in order.
\<close>

fun download_each ::
  "scraper \<Rightarrow> env \<Rightarrow> pystr \<Rightarrow> (nat \<times> pystr) list \<Rightarrow> world \<Rightarrow> world \<times> bool list" where
  "download_each sc e location_name [] w = (w, [])"
| "download_each sc e location_name ((i, url) # rest) w =
     (case download_image sc e url location_name (i + 1) w of (w1, ok) \<Rightarrow>
      case download_each sc e location_name rest w1 of (w2, oks) \<Rightarrow> (w2, ok # oks))"

definition download_all_images ::
  "scraper \<Rightarrow> env \<Rightarrow> pystr list \<Rightarrow> pystr \<Rightarrow> int \<Rightarrow> world \<Rightarrow> (world \<times> nat) option" where
  "download_all_images sc e urls location_name max_workers w =
     (if urls = [] then Some (w, 0)
      else if max_workers \<le> 0 then None
      else
        (case download_each sc e location_name (enumerate 0 urls) w of
           (w1, oks) \<Rightarrow> Some (w1, length (filter (\<lambda>ok. ok) oks))))"

section \<open>Orchestrator\<close>

text \<open>
  What one call of \<^verbatim>\<open>scrape_location_images\<close> sees: whether \<^verbatim>\<open>search_location\<close> and
  \<^verbatim>\<open>open_photos_section\<close> returned \<^verbatim>\<open>True\<close>, and the observations of the extraction.
\<close>

record attempt_obs =
  search_found :: bool
  photos_opened :: bool
  extraction :: extract_obs

text \<open>
  \<^verbatim>\<open>scrape_location_images\<close> (lines 972-1021). Its first statement calls
  \<^verbatim>\<open>search_location\<close>, which the world logs. The handler of line 1016 turns every
  exception into \<^verbatim>\<open>(False, 0)\<close>. The result \<open>None\<close> is a call that has not returned
  (its gallery loop is still running). Closing the browser (line 1021) changes nothing
  the world records.
\<close>

definition search_location :: "pystr \<Rightarrow> world \<Rightarrow> world" where
  "search_location location_name w = w\<lparr>searches := searches w @ [location_name]\<rparr>"

definition scrape_location_images ::
  "scraper \<Rightarrow> env \<Rightarrow> attempt_obs \<Rightarrow> pystr \<Rightarrow> int option \<Rightarrow> int \<Rightarrow> world \<Rightarrow>
   world \<times> (bool \<times> int) option" where
  "scrape_location_images sc e obs location_name max_images max_workers w0 =
     (let w = search_location location_name w0 in
      if \<not> search_found obs then (w, Some (False, 0))
      else if \<not> photos_opened obs then (w, Some (False, 0))
      else
        (case extract_image_urls sc e (extraction obs) max_images (Some location_name) w of
           (w1, Raises) \<Rightarrow> (w1, Some (False, 0))
         | (w1, Running) \<Rightarrow> (w1, None)
         | (w1, Returns (urls, why)) \<Rightarrow>
             if urls = [] then (w1, Some (True, 0))
             else if max_workers = 0 then (w1, Some (True, int (length urls)))
             else
               (case download_all_images sc e urls location_name max_workers w1 of
                  None \<Rightarrow> (w1, Some (False, 0))
                | Some (w2, downloaded_count) \<Rightarrow> (w2, Some (True, int downloaded_count)))))"

text \<open>
  The constructor (lines 96-135): the download directory is made when it does not exist,
  then the browser is started. \<open>driver_fails\<close> says whether starting the browser raises
  (the handler of line 133 raises again). The result is the world after and whether the
  constructor returned; a directory made before the browser failed stays.
\<close>

definition scraper_init :: "scraper \<Rightarrow> env \<Rightarrow> bool \<Rightarrow> world \<Rightarrow> world \<times> bool" where
  "scraper_init sc e driver_fails w =
     (case ensure_dir e (download_dir sc) w of
        None \<Rightarrow> (w, False)
      | Some w1 \<Rightarrow> (w1, \<not> driver_fails))"

text \<open>The command line arguments \<^verbatim>\<open>main\<close> reads (lines 1026-1039).\<close>

record args =
  location :: pystr
  download_dir_arg :: path
  max_images :: "int option"
  max_workers :: int
  retry_attempts :: int
  no_csv :: bool
  only_csv :: bool

text \<open>
  How the retry loop of \<^verbatim>\<open>main\<close> ends: a call that never returns, an exception of the
  scraper's constructor (caught at line 1127), or the end of the loop with the values of
  \<^verbatim>\<open>success\<close>, \<^verbatim>\<open>downloaded_count\<close> and \<^verbatim>\<open>attempts\<close>. The last number of each is not a
  variable of the source: it counts the calls of \<^verbatim>\<open>scrape_location_images\<close> made.
\<close>

datatype loop_result = Hangs | Init_Raised nat | Loop_Done bool int int nat

text \<open>
  The loop of lines 1067-1091. \<open>scrape k\<close> is the call number \<open>k\<close> (from 0) of
  \<^verbatim>\<open>scraper.scrape_location_images\<close>, and \<open>construct k\<close> the construction number \<open>k\<close> of
  a scraper (the one before the loop is number 0): the world after it, and whether it
  returned. At the head of the loop the calls made are as many as \<^verbatim>\<open>attempts\<close>.
\<close>

function main_loop ::
  "(nat \<Rightarrow> world \<Rightarrow> world \<times> (bool \<times> int) option) \<Rightarrow> (nat \<Rightarrow> world \<Rightarrow> world \<times> bool) \<Rightarrow>
   args \<Rightarrow> bool \<Rightarrow> int \<Rightarrow> int \<Rightarrow> world \<Rightarrow> world \<times> loop_result" where
  "main_loop scrape construct a success downloaded_count attempts w =
     (if \<not> success \<and> attempts < retry_attempts a then
        (case scrape (nat attempts) w of
           (w1, None) \<Rightarrow> (w1, Hangs)
         | (w1, Some (success1, count1)) \<Rightarrow>
             if success1 \<and> (0 < count1 \<or> only_csv a)
             then (w1, Loop_Done success1 count1 attempts (nat attempts + 1))
             else if attempts + 1 < retry_attempts a \<and> \<not> success1
             then (case construct (nat (attempts + 1)) w1 of
                     (w2, False) \<Rightarrow> (w2, Init_Raised (nat attempts + 1))
                   | (w2, True) \<Rightarrow>
                       main_loop scrape construct a success1 count1 (attempts + 1) w2)
             else main_loop scrape construct a success1 count1 (attempts + 1) w1)
      else (w, Loop_Done success downloaded_count attempts (nat attempts)))"
  by pat_completeness auto
termination
  by (relation "measure (\<lambda>(scrape, construct, a, success, downloaded_count, attempts, w).
        nat (retry_attempts a - attempts))") auto

declare main_loop.simps [simp del]

text \<open>
  What a run of \<^verbatim>\<open>main\<close> sees: the constructions at which the browser fails to start,
  the observations and the outside of each attempt (the outside of attempt \<open>k\<close> is also
  that of the construction \<open>k\<close> before it), and whether the report after the loop (which
  lists the directory and reads the ledger, lines 1094-1115) raises.
\<close>

record run_obs =
  init_fails :: "nat \<Rightarrow> bool"
  attempt_obs :: "nat \<Rightarrow> attempt_obs"
  attempt_env :: "nat \<Rightarrow> env"
  report_fails :: bool

definition scraper_of :: "args \<Rightarrow> scraper" where
  "scraper_of a = \<lparr>download_dir = download_dir_arg a, save_csv = \<not> no_csv a\<rparr>"

definition construct_call :: "args \<Rightarrow> run_obs \<Rightarrow> nat \<Rightarrow> world \<Rightarrow> world \<times> bool" where
  "construct_call a r k = scraper_init (scraper_of a) (attempt_env r k) (init_fails r k)"

definition scrape_call :: "args \<Rightarrow> run_obs \<Rightarrow> nat \<Rightarrow> world \<Rightarrow> world \<times> (bool \<times> int) option" where
  "scrape_call a r k =
     scrape_location_images (scraper_of a) (attempt_env r k) (attempt_obs r k) (location a)
       (max_images a) (if only_csv a then 0 else max_workers a)"

text \<open>
  \<^verbatim>\<open>main\<close> (lines 1024-1130): the exit code and the number of pipeline attempts made, or
  \<open>None\<close> when an attempt never returns. Every exception raised inside, that of a
  constructor included, ends in the handler of line 1127, which returns 1. An interrupt
  from the keyboard is not modelled.
\<close>

definition main :: "args \<Rightarrow> run_obs \<Rightarrow> world \<Rightarrow> world \<times> (int \<times> nat) option" where
  "main a r w =
     (case construct_call a r 0 w of
        (w0, False) \<Rightarrow> (w0, Some (1, 0))
      | (w0, True) \<Rightarrow>
          (case main_loop (scrape_call a r) (construct_call a r) a False 0 0 w0 of
             (w1, Hangs) \<Rightarrow> (w1, None)
           | (w1, Init_Raised calls) \<Rightarrow> (w1, Some (1, calls))
           | (w1, Loop_Done success downloaded_count attempts calls) \<Rightarrow>
               (w1, Some (if success then (if report_fails r then 1 else 0) else 1, calls))))"

text \<open>
  Whether the first constructor gets its download directory: the directory exists or
  \<^verbatim>\<open>os.makedirs\<close> makes it.
\<close>

definition dir_ready :: "args \<Rightarrow> run_obs \<Rightarrow> world \<Rightarrow> bool" where
  "dir_ready a r w \<longleftrightarrow>
     path_exists w (download_dir_arg a) \<or>
     \<not> makedirs_fails (attempt_env r 0) (download_dir_arg a)"

section \<open>Sample runs\<close>

text \<open>
  Concrete worlds, outsides and observations, on which the theorems below are evaluated:
  an empty file system; an outside where nothing fails, the server answers 200 with a
  one-byte body and a set is iterated in the order of insertion; a page where the gallery
  is not entered and the script of the direct scan raises, so that no image is found.
\<close>

definition empty_world :: world where
  "empty_world =
     \<lparr>dirs = {}, files = (\<lambda>p. None), csvs = (\<lambda>p. None), requests = [], searches = []\<rparr>"

definition calm_env :: env where
  "calm_env =
     \<lparr>is_decimal = ascii_digit, url_ext = (\<lambda>u. []), respond = (\<lambda>u k. Http 200 [1]),
      makedirs_fails = (\<lambda>p. False), create_fails = (\<lambda>p. False), write_fails = (\<lambda>p. False),
      append_fails = (\<lambda>p i. False), file_stamp = py ''20240101_120000'',
      row_stamp = (\<lambda>i. py ''2024-01-01 12:00:00''), set_order = (\<lambda>xs u. 0)\<rparr>"

definition no_images :: extract_obs where
  "no_images = \<lparr>in_gallery = False, direct = \<lparr>js_images = None, css_reads = []\<rparr>, steps = []\<rparr>"

definition sample_scraper :: scraper where
  "sample_scraper = \<lparr>download_dir = py ''out'', save_csv = True\<rparr>"

definition sample_args :: args where
  "sample_args =
     \<lparr>location = py ''Cafe'', download_dir_arg = py ''out'', max_images = None,
      max_workers = 5, retry_attempts = 3, no_csv = True, only_csv = False\<rparr>"

text \<open>Three runs of \<^verbatim>\<open>main\<close>: the location is never found; the location is found and has no
  image; the location is found, without an image, at the second attempt only.\<close>

definition never_found :: run_obs where
  "never_found =
     \<lparr>init_fails = (\<lambda>k. False),
      attempt_obs = (\<lambda>k. \<lparr>search_found = False, photos_opened = False, extraction = no_images\<rparr>),
      attempt_env = (\<lambda>k. calm_env), report_fails = False\<rparr>"



text \<open>A run where the location is never found and the browser does not start at the
  second construction of a scraper (number 1).\<close>

definition browser_fails_second :: run_obs where
  "browser_fails_second =
     \<lparr>init_fails = (\<lambda>k. k = 1),
      attempt_obs = (\<lambda>k. \<lparr>search_found = False, photos_opened = False, extraction = no_images\<rparr>),
      attempt_env = (\<lambda>k. calm_env), report_fails = False\<rparr>"

text \<open>
  Two photo URLs, and a gallery whose first iteration shows one photo to the first
  image selector and another to the second.
\<close>

definition photo_a :: pystr where
  "photo_a = py ''https://lh3.googleusercontent.com/p/a=w408-h306''"

definition photo_b :: pystr where
  "photo_b = py ''https://lh3.googleusercontent.com/p/b=w408-h306''"

definition two_hits :: extract_obs where
  "two_hits =
     \<lparr>in_gallery = True, direct = \<lparr>js_images = None, css_reads = []\<rparr>,
      steps = [\<lparr>selector_reads = [[Src (Some photo_a)], [Src (Some photo_b)]],
                script_imgs = None, next_clicked = True\<rparr>]\<rparr>"

text \<open>
  A gallery of two photos, one an iteration, with no next control after the second; and
  an outside that differs from the calm one in that the append of entry 1 fails.
\<close>

definition two_photos :: extract_obs where
  "two_photos =
     \<lparr>in_gallery = True, direct = \<lparr>js_images = None, css_reads = []\<rparr>,
      steps = [\<lparr>selector_reads = [[Src (Some photo_a)]], script_imgs = None, next_clicked = True\<rparr>,
               \<lparr>selector_reads = [[Src (Some photo_b)]], script_imgs = None, next_clicked = False\<rparr>]\<rparr>"

definition first_append_fails :: env where
  "first_append_fails = calm_env\<lparr>append_fails := (\<lambda>p i. i = 1)\<rparr>"

text \<open>An outside that differs from the calm one in that a set is iterated with the
  element inserted last first.\<close>

definition newest_first :: env where
  "newest_first = calm_env\<lparr>set_order := (\<lambda>xs u. if u = last xs then 0 else 1)\<rparr>"

section \<open>Filename sanitization: proofs\<close>

lemma isspace_not_invalid: "py_isspace c \<Longrightarrow> c \<notin> set invalid_chars"
  by (auto simp: py_isspace_def invalid_chars_def)

lemma underscore_facts: "\<not> py_isspace 95" "95 \<notin> set invalid_chars" "py_isspace 32" "\<not> py_isspace 46"
  by (simp_all add: py_isspace_def invalid_chars_def)

lemma set_sub_invalid: "c \<in> set (sub_invalid s) \<Longrightarrow> c \<notin> set invalid_chars"
  by (auto simp: sub_invalid_def invalid_chars_def)

lemma set_strip_chars: "set (strip_chars cs s) \<subseteq> set s"
  unfolding strip_chars_def
  by (metis set_dropWhileD set_rev subsetI)

lemma set_sub_spaces: "set (sub_spaces t) \<subseteq> {c \<in> set t. \<not> py_isspace c} \<union> {95}"
proof (induction t rule: sub_spaces.induct)
  case 1
  then show ?case by simp
next
  case (2 c cs)
  have "set (dropWhile py_isspace cs) \<subseteq> set cs" by (auto dest: set_dropWhileD)
  with 2 show ?case by auto
qed

lemma sub_spaces_id: "\<forall>c\<in>set t. \<not> py_isspace c \<Longrightarrow> sub_spaces t = t"
  by (induction t) auto

lemma sub_invalid_id: "\<forall>c\<in>set t. c \<notin> set invalid_chars \<Longrightarrow> sub_invalid t = t"
  by (induction t) (auto simp: sub_invalid_def)

lemma sub_spaces_Nil_iff: "sub_spaces t = [] \<longleftrightarrow> t = []"
  by (cases t) auto

lemma hd_sub_spaces: "t \<noteq> [] \<Longrightarrow> hd (sub_spaces t) = (if py_isspace (hd t) then 95 else hd t)"
  by (cases t) auto

lemma last_sub_spaces: "t \<noteq> [] \<Longrightarrow> last (sub_spaces t) = (if py_isspace (last t) then 95 else last t)"
proof (induction t rule: sub_spaces.induct)
  case 1
  then show ?case by simp
next
  case (2 c cs)
  show ?case
  proof (cases "py_isspace c")
    case sp: True
    let ?d = "dropWhile py_isspace cs"
    show ?thesis
    proof (cases "?d = []")
      case dnil: True
      then have all: "\<forall>x\<in>set cs. py_isspace x" by simp
      have "py_isspace (last (c # cs))" using all sp by (cases "cs = []") auto
      with sp show ?thesis by (simp add: dnil)
    next
      case dne: False
      then have cne: "cs \<noteq> []" by auto
      have "last ?d = last cs" using dne
        by (metis last_appendR takeWhile_dropWhile_id)
      with 2(1)[OF sp dne] dne sp cne show ?thesis
        by (simp add: sub_spaces_Nil_iff)
    qed
  next
    case False
    with 2(2) show ?thesis by (cases "cs = []") (auto simp: sub_spaces_Nil_iff)
  qed
qed

lemma strip_chars_edges:
  "strip_chars cs s \<noteq> [] \<Longrightarrow> hd (strip_chars cs s) \<notin> set cs \<and> last (strip_chars cs s) \<notin> set cs"
proof -
  assume ne: "strip_chars cs s \<noteq> []"
  let ?P = "\<lambda>c. c \<in> set cs"
  let ?a = "dropWhile ?P s"
  let ?b = "dropWhile ?P (rev ?a)"
  have b: "?b \<noteq> []" using ne by (simp add: strip_chars_def)
  then have hb: "\<not> ?P (hd ?b)" by (rule hd_dropWhile)
  have l: "last (strip_chars cs s) = hd ?b" using b by (simp add: strip_chars_def last_rev)
  have a: "?a \<noteq> []"
  proof
    assume "?a = []"
    with b show False by (metis dropWhile.simps(1) rev.simps(1))
  qed
  then have ha: "\<not> ?P (hd ?a)" by (rule hd_dropWhile)
  have "hd (rev ?b) = hd ?a"
  proof -
    obtain x xs where axs: "?a = x # xs" using a by (cases ?a) auto
    then have nx: "\<not> ?P x" using ha by simp
    have "rev ?a = rev xs @ [x]" using axs by simp
    then have "?b = dropWhile ?P (rev xs @ [x])" by simp
    also have "\<dots> = dropWhile ?P (rev xs) @ [x]" using nx
      by (simp add: dropWhile_append3)
    finally have "rev ?b = x # rev (dropWhile ?P (rev xs))" by simp
    then show ?thesis using axs by simp
  qed
  then have "hd (strip_chars cs s) = hd ?a" by (simp add: strip_chars_def)
  with ha hb l show ?thesis by simp
qed

lemma strip_chars_id:
  "s = [] \<or> (hd s \<notin> set cs \<and> last s \<notin> set cs) \<Longrightarrow> strip_chars cs s = s"
proof (cases "s = []")
  case True
  then show ?thesis by (simp add: strip_chars_def)
next
  case False
  assume "s = [] \<or> (hd s \<notin> set cs \<and> last s \<notin> set cs)"
  with False have h: "hd s \<notin> set cs" and l: "last s \<notin> set cs" by auto
  have 1: "dropWhile (\<lambda>c. c \<in> set cs) s = s" using False h by (cases s) auto
  have "hd (rev s) \<notin> set cs" using l False by (simp add: hd_rev)
  then have 2: "dropWhile (\<lambda>c. c \<in> set cs) (rev s) = rev s" using False by (cases "rev s") auto
  show ?thesis by (simp add: strip_chars_def 1 2)
qed

lemma sub_spaces_append:
  "x \<noteq> [] \<Longrightarrow> \<not> py_isspace (last x) \<Longrightarrow> sub_spaces (x @ y) = sub_spaces x @ sub_spaces y"
proof (induction x rule: sub_spaces.induct)
  case 1
  then show ?case by simp
next
  case (2 c cs)
  show ?case
  proof (cases "py_isspace c")
    case sp: True
    with 2(4) have cne: "cs \<noteq> []" by auto
    with 2(4) have lst: "\<not> py_isspace (last cs)" by simp
    then have ex: "\<exists>z\<in>set cs. \<not> py_isspace z" using cne last_in_set by blast
    then have dne: "dropWhile py_isspace cs \<noteq> []" by simp
    have "last (dropWhile py_isspace cs) = last cs" using dne
      by (metis last_appendR takeWhile_dropWhile_id)
    with lst have l2: "\<not> py_isspace (last (dropWhile py_isspace cs))" by simp
    have "dropWhile py_isspace (cs @ y) = dropWhile py_isspace cs @ y"
      using ex by (metis dropWhile_append1)
    with 2(1)[OF sp dne l2] sp show ?thesis by simp
  next
    case nsp: False
    show ?thesis
    proof (cases "cs = []")
      case True
      with nsp show ?thesis by simp
    next
      case False
      with 2(4) have "\<not> py_isspace (last cs)" by simp
      with 2(2)[OF nsp False] nsp show ?thesis by simp
    qed
  qed
qed

lemma sub_spaces_run:
  "w \<noteq> [] \<Longrightarrow> \<forall>c\<in>set w. py_isspace c \<Longrightarrow> v = [] \<or> \<not> py_isspace (hd v) \<Longrightarrow>
   sub_spaces (w @ v) = 95 # sub_spaces v"
proof -
  assume w: "w \<noteq> []" and all: "\<forall>c\<in>set w. py_isspace c" and v: "v = [] \<or> \<not> py_isspace (hd v)"
  obtain c cs where wc: "w = c # cs" using w by (cases w) auto
  have "dropWhile py_isspace (cs @ v) = dropWhile py_isspace v"
    using all wc by (simp add: dropWhile_append2)
  also have "\<dots> = v" using v by (cases v) auto
  finally show ?thesis using wc all by simp
qed

lemma sub_invalid_append: "sub_invalid (x @ y) = sub_invalid x @ sub_invalid y"
  by (simp add: sub_invalid_def)

lemma sub_invalid_spaces: "\<forall>c\<in>set w. py_isspace c \<Longrightarrow> sub_invalid w = w"
  by (rule sub_invalid_id) (auto dest: isspace_not_invalid)

lemma sub_invalid_Nil_iff: "sub_invalid x = [] \<longleftrightarrow> x = []"
  by (simp add: sub_invalid_def)

lemma hd_sub_invalid: "x \<noteq> [] \<Longrightarrow> hd (sub_invalid x) = hd x \<or> hd (sub_invalid x) = 95"
  by (cases x) (auto simp: sub_invalid_def)

lemma last_sub_invalid: "x \<noteq> [] \<Longrightarrow> last (sub_invalid x) = last x \<or> last (sub_invalid x) = 95"
  by (auto simp: sub_invalid_def last_map)

lemma strip_chars_halves: "strip_chars cs s = rstrip_chars cs (lstrip_chars cs s)"
  by (simp add: strip_chars_def lstrip_chars_def rstrip_chars_def)

lemma lstrip_append:
  "\<exists>c\<in>set x. c \<notin> set cs \<Longrightarrow> lstrip_chars cs (x @ y) = lstrip_chars cs x @ y"
  by (auto simp: lstrip_chars_def dropWhile_append1)

lemma rstrip_append:
  "\<exists>c\<in>set y. c \<notin> set cs \<Longrightarrow> rstrip_chars cs (x @ y) = x @ rstrip_chars cs y"
  by (auto simp: rstrip_chars_def dropWhile_append1)

lemma lstrip_last:
  assumes "\<exists>c\<in>set x. c \<notin> set cs"
  shows "lstrip_chars cs x \<noteq> [] \<and> last (lstrip_chars cs x) = last x"
proof -
  let ?P = "\<lambda>c. c \<in> set cs"
  have ne: "dropWhile ?P x \<noteq> []" using assms by simp
  have "last (takeWhile ?P x @ dropWhile ?P x) = last (dropWhile ?P x)"
    using ne by (rule last_appendR)
  then have "last x = last (dropWhile ?P x)" by (simp only: takeWhile_dropWhile_id)
  then show ?thesis using ne by (simp add: lstrip_chars_def)
qed

lemma rstrip_hd:
  assumes "\<exists>c\<in>set y. c \<notin> set cs"
  shows "rstrip_chars cs y \<noteq> [] \<and> hd (rstrip_chars cs y) = hd y"
proof -
  let ?P = "\<lambda>c. c \<in> set cs"
  have ne: "dropWhile ?P (rev y) \<noteq> []" using assms by simp
  have "last (takeWhile ?P (rev y) @ dropWhile ?P (rev y)) = last (dropWhile ?P (rev y))"
    using ne by (rule last_appendR)
  then have "last (rev y) = last (dropWhile ?P (rev y))" by (simp only: takeWhile_dropWhile_id)
  moreover have "y \<noteq> []" using assms by auto
  ultimately have "hd y = hd (rev (dropWhile ?P (rev y)))"
    using ne by (simp add: hd_rev last_rev)
  then show ?thesis using ne by (simp add: rstrip_chars_def)
qed

lemma anchor_sub_invalid: "has_anchor x \<Longrightarrow> \<exists>c\<in>set (sub_invalid x). c \<notin> set [46, 32]"
proof -
  assume "has_anchor x"
  then obtain c where c: "c \<in> set x" "c \<noteq> 46" "c \<noteq> 32"
    by (auto simp: has_anchor_def list_ex_iff)
  let ?d = "if c \<in> set invalid_chars then 95 else c"
  have "?d \<in> set (sub_invalid x)" using c(1) by (auto simp: sub_invalid_def)
  moreover have "?d \<notin> set [46, 32]" using c(2,3) by simp
  ultimately show ?thesis by blast
qed

lemma last_sub_invalid_space: "x \<noteq> [] \<Longrightarrow> \<not> py_isspace (last x) \<Longrightarrow> \<not> py_isspace (last (sub_invalid x))"
  using last_sub_invalid[of x] underscore_facts by auto

lemma hd_sub_invalid_space: "x \<noteq> [] \<Longrightarrow> \<not> py_isspace (hd x) \<Longrightarrow> \<not> py_isspace (hd (sub_invalid x))"
  using hd_sub_invalid[of x] underscore_facts by auto

lemma sanitize_inner_run:
  assumes u: "has_anchor u" "\<not> py_isspace (last u)"
    and v: "has_anchor v" "\<not> py_isspace (hd v)"
    and w: "w \<noteq> []" "\<forall>c\<in>set w. py_isspace c"
  shows "sanitize_filename (u @ w @ v) =
           sub_spaces (lstrip_chars [46, 32] (sub_invalid u)) @ [95] @
           sub_spaces (rstrip_chars [46, 32] (sub_invalid v))"
proof -
  let ?u = "sub_invalid u" and ?v = "sub_invalid v"
  have une: "u \<noteq> []" and vne: "v \<noteq> []" using u(1) v(1) by (auto simp: has_anchor_def)
  have au: "\<exists>c\<in>set ?u. c \<notin> set [46, 32]" using u(1) by (rule anchor_sub_invalid)
  have av: "\<exists>c\<in>set ?v. c \<notin> set [46, 32]" using v(1) by (rule anchor_sub_invalid)
  have si: "sub_invalid (u @ w @ v) = ?u @ w @ ?v"
    using w(2) by (simp add: sub_invalid_append sub_invalid_spaces)
  have l: "lstrip_chars [46, 32] (?u @ w @ ?v) = lstrip_chars [46, 32] ?u @ w @ ?v"
    using au by (rule lstrip_append)
  have av': "\<exists>c\<in>set (w @ ?v). c \<notin> set [46, 32]" using av by auto
  have "rstrip_chars [46, 32] (lstrip_chars [46, 32] ?u @ w @ ?v) =
          lstrip_chars [46, 32] ?u @ rstrip_chars [46, 32] (w @ ?v)"
    using av' by (rule rstrip_append)
  also have "rstrip_chars [46, 32] (w @ ?v) = w @ rstrip_chars [46, 32] ?v"
    using av by (rule rstrip_append)
  finally have st: "strip_chars [46, 32] (?u @ w @ ?v) =
      lstrip_chars [46, 32] ?u @ w @ rstrip_chars [46, 32] ?v"
    by (simp add: strip_chars_halves l)
  note lu = lstrip_last[OF au] and rv = rstrip_hd[OF av]
  have lsp: "\<not> py_isspace (last (lstrip_chars [46, 32] ?u))"
    using lu last_sub_invalid_space[OF une u(2)] by simp
  have hsp: "\<not> py_isspace (hd (rstrip_chars [46, 32] ?v))"
    using rv hd_sub_invalid_space[OF vne v(2)] by simp
  have "sub_spaces (lstrip_chars [46, 32] ?u @ w @ rstrip_chars [46, 32] ?v) =
          sub_spaces (lstrip_chars [46, 32] ?u) @ sub_spaces (w @ rstrip_chars [46, 32] ?v)"
    using lu lsp by (intro sub_spaces_append) auto
  also have "sub_spaces (w @ rstrip_chars [46, 32] ?v) = 95 # sub_spaces (rstrip_chars [46, 32] ?v)"
    using w hsp by (intro sub_spaces_run) auto
  finally show ?thesis by (simp add: sanitize_filename_def si st)
qed

lemma sanitize_plain_words:
  assumes u: "u \<noteq> []" "\<forall>c\<in>set u. c \<notin> set invalid_chars \<and> \<not> py_isspace c" "hd u \<notin> {46, 32}"
    and v: "v \<noteq> []" "\<forall>c\<in>set v. c \<notin> set invalid_chars \<and> \<not> py_isspace c" "last v \<notin> {46, 32}"
    and w: "w \<noteq> []" "\<forall>c\<in>set w. py_isspace c"
  shows "sanitize_filename (u @ w @ v) = u @ [95] @ v"
proof -
  have au: "has_anchor u" using u(1,3) by (cases u) (auto simp: has_anchor_def)
  have "last v \<in> set v" using v(1) by simp
  then have av: "has_anchor v" using v(3) by (auto simp: has_anchor_def list_ex_iff)
  have lu: "\<not> py_isspace (last u)" using u(1,2) last_in_set by blast
  have hv: "\<not> py_isspace (hd v)" using v(1,2) hd_in_set by blast
  have su: "sub_invalid u = u" using u(2) by (intro sub_invalid_id) auto
  have sv: "sub_invalid v = v" using v(2) by (intro sub_invalid_id) auto
  have l: "lstrip_chars [46, 32] u = u" using u(1,3) by (cases u) (auto simp: lstrip_chars_def)
  have "hd (rev v) \<notin> {46, 32}" using v(1,3) by (simp add: hd_rev)
  then have "dropWhile (\<lambda>c. c \<in> set [46, 32]) (rev v) = rev v"
    using v(1) by (cases "rev v") auto
  then have r: "rstrip_chars [46, 32] v = v" by (simp add: rstrip_chars_def)
  have pu: "sub_spaces u = u" using u(2) by (intro sub_spaces_id) auto
  have pv: "sub_spaces v = v" using v(2) by (intro sub_spaces_id) auto
  from sanitize_inner_run[OF au lu av hv w] show ?thesis by (simp add: su sv l r pu pv)
qed

lemma sanitize_set: "c \<in> set (sanitize_filename s) \<Longrightarrow> c \<notin> set invalid_chars \<and> \<not> py_isspace c"
proof -
  assume c: "c \<in> set (sanitize_filename s)"
  let ?t = "strip_chars [46, 32] (sub_invalid s)"
  from c set_sub_spaces[of ?t] have "(c \<in> set ?t \<and> \<not> py_isspace c) \<or> c = 95"
    by (auto simp: sanitize_filename_def)
  then show ?thesis
  proof
    assume a: "c \<in> set ?t \<and> \<not> py_isspace c"
    then have "c \<in> set (sub_invalid s)" using set_strip_chars by blast
    with a show ?thesis by (simp add: set_sub_invalid)
  next
    assume "c = 95" then show ?thesis by (simp add: underscore_facts)
  qed
qed

lemma sanitize_edges:
  assumes "sanitize_filename s \<noteq> []"
  shows "hd (sanitize_filename s) \<notin> {46, 32} \<and> last (sanitize_filename s) \<notin> {46, 32}"
proof -
  let ?t = "strip_chars [46, 32] (sub_invalid s)"
  have ne: "?t \<noteq> []" using assms by (simp add: sanitize_filename_def sub_spaces_Nil_iff)
  from strip_chars_edges[OF ne] have e: "hd ?t \<notin> {46, 32}" "last ?t \<notin> {46, 32}" by simp_all
  show ?thesis
    using e ne underscore_facts
    by (auto simp: sanitize_filename_def hd_sub_spaces last_sub_spaces)
qed

lemma sanitize_idem: "sanitize_filename (sanitize_filename s) = sanitize_filename s"
proof -
  let ?r = "sanitize_filename s"
  have 1: "sub_invalid ?r = ?r" by (rule sub_invalid_id) (simp add: sanitize_set)
  have 2: "strip_chars [46, 32] ?r = ?r"
    using sanitize_edges[of s] by (intro strip_chars_id) auto
  have 3: "sub_spaces ?r = ?r" by (rule sub_spaces_id) (simp add: sanitize_set)
  have "sanitize_filename ?r = sub_spaces (strip_chars [46, 32] (sub_invalid ?r))"
    by (simp only: sanitize_filename_def)
  also have "\<dots> = ?r" by (simp only: 1 2 3)
  finally show ?thesis .
qed

lemma sanitize_cafe: "sanitize_filename cafe_deja_vu = [67, 97, 102, 233, 95, 95, 68, 233, 106, 224, 95, 86, 117, 95]"
  by (simp add: sanitize_filename_def cafe_deja_vu_def sub_invalid_def invalid_chars_def strip_chars_def py_isspace_def)

lemmas sanitize_eval =
  sanitize_filename_def sub_invalid_def invalid_chars_def strip_chars_def py_isspace_def py_def

lemma sanitize_mt_fuji: "sanitize_filename mt_fuji = py ''Mt._Fuji''"
  by (simp add: sanitize_eval mt_fuji_def)

text \<open>
  C8. For every input string, the sanitized name contains none of the nine characters
  of the class and no whitespace at all; when it is not empty it neither begins nor ends
  with a period or a space. Every whitespace run that is still inside the string after
  the trimming becomes exactly one underscore: for a maximal run \<open>w\<close> between \<open>u\<close> and
  \<open>v\<close>, each holding a code point that is neither a period nor a space, the name is the
  left part (\<open>u\<close> with its class characters replaced, trimmed on the left, its own runs
  collapsed), one underscore, and the right part; so between two words without class
  characters and whitespace the run becomes one underscore and the words stay, also when
  a period stands next to the run. The label ``Cafe: Deja Vu?'' (with its accents)
  becomes ``Cafe__Deja_Vu_'' (accents kept), and ``Mt. Fuji'' becomes ``Mt._Fuji''.
\<close>

theorem sanitize_filename_safe:
  "(\<forall>c\<in>set (sanitize_filename s). c \<notin> set invalid_chars \<and> \<not> py_isspace c) \<and>
   (sanitize_filename s \<noteq> [] \<longrightarrow>
      hd (sanitize_filename s) \<notin> {46, 32} \<and> last (sanitize_filename s) \<notin> {46, 32}) \<and>
   (has_anchor u \<and> \<not> py_isspace (last u) \<and> has_anchor v \<and> \<not> py_isspace (hd v) \<and>
    w \<noteq> [] \<and> (\<forall>c\<in>set w. py_isspace c) \<longrightarrow>
      sanitize_filename (u @ w @ v) =
        sub_spaces (lstrip_chars [46, 32] (sub_invalid u)) @ [95] @
        sub_spaces (rstrip_chars [46, 32] (sub_invalid v))) \<and>
   (u \<noteq> [] \<and> (\<forall>c\<in>set u. c \<notin> set invalid_chars \<and> \<not> py_isspace c) \<and> hd u \<notin> {46, 32} \<and>
    v \<noteq> [] \<and> (\<forall>c\<in>set v. c \<notin> set invalid_chars \<and> \<not> py_isspace c) \<and> last v \<notin> {46, 32} \<and>
    w \<noteq> [] \<and> (\<forall>c\<in>set w. py_isspace c) \<longrightarrow>
      sanitize_filename (u @ w @ v) = u @ [95] @ v) \<and>
   sanitize_filename cafe_deja_vu = [67, 97, 102, 233, 95, 95, 68, 233, 106, 224, 95, 86, 117, 95] \<and>
   sanitize_filename mt_fuji = py ''Mt._Fuji''"
proof (intro conjI ballI impI)
  fix c assume "c \<in> set (sanitize_filename s)"
  then show "c \<notin> set invalid_chars" "\<not> py_isspace c" by (simp_all add: sanitize_set)
next
  assume "sanitize_filename s \<noteq> []"
  from sanitize_edges[OF this]
  show "hd (sanitize_filename s) \<notin> {46, 32}" "last (sanitize_filename s) \<notin> {46, 32}"
    by simp_all
next
  assume "has_anchor u \<and> \<not> py_isspace (last u) \<and> has_anchor v \<and> \<not> py_isspace (hd v) \<and>
    w \<noteq> [] \<and> (\<forall>c\<in>set w. py_isspace c)"
  then show "sanitize_filename (u @ w @ v) =
        sub_spaces (lstrip_chars [46, 32] (sub_invalid u)) @ [95] @
        sub_spaces (rstrip_chars [46, 32] (sub_invalid v))"
    by (intro sanitize_inner_run) auto
next
  assume "u \<noteq> [] \<and> (\<forall>c\<in>set u. c \<notin> set invalid_chars \<and> \<not> py_isspace c) \<and> hd u \<notin> {46, 32} \<and>
    v \<noteq> [] \<and> (\<forall>c\<in>set v. c \<notin> set invalid_chars \<and> \<not> py_isspace c) \<and> last v \<notin> {46, 32} \<and>
    w \<noteq> [] \<and> (\<forall>c\<in>set w. py_isspace c)"
  then show "sanitize_filename (u @ w @ v) = u @ [95] @ v"
    by (intro sanitize_plain_words) auto
next
  show "sanitize_filename cafe_deja_vu = [67, 97, 102, 233, 95, 95, 68, 233, 106, 224, 95, 86, 117, 95]"
    by (rule sanitize_cafe)
next
  show "sanitize_filename mt_fuji = py ''Mt._Fuji''" by (rule sanitize_mt_fuji)
qed

theorem sanitize_filename_safe_witness:
  "has_anchor (py ''Mt.'') \<and> \<not> py_isspace (last (py ''Mt.'')) \<and>
   has_anchor (py ''Fuji'') \<and> \<not> py_isspace (hd (py ''Fuji'')) \<and>
   [32, 9] \<noteq> [] \<and> list_all py_isspace [32, 9] \<and>
   list_all (\<lambda>c. c \<notin> set invalid_chars \<and> \<not> py_isspace c) (py ''Mt.'') \<and>
   list_all (\<lambda>c. c \<notin> set invalid_chars \<and> \<not> py_isspace c) (py ''Fuji'') \<and>
   hd (py ''Mt.'') \<notin> {46, 32} \<and> last (py ''Fuji'') \<notin> {46, 32} \<and>
   sanitize_filename (py ''Mt.'' @ [32, 9] @ py ''Fuji'') =
     sub_spaces (lstrip_chars [46, 32] (sub_invalid (py ''Mt.''))) @ [95] @
     sub_spaces (rstrip_chars [46, 32] (sub_invalid (py ''Fuji''))) \<and>
   sub_spaces (lstrip_chars [46, 32] (sub_invalid (py ''Mt.''))) = py ''Mt.'' \<and>
   sub_spaces (rstrip_chars [46, 32] (sub_invalid (py ''Fuji''))) = py ''Fuji'' \<and>
   sanitize_filename (py ''Mt.'' @ [32, 9] @ py ''Fuji'') = py ''Mt.'' @ [95] @ py ''Fuji'' \<and>
   sanitize_filename cafe_deja_vu \<noteq> [] \<and>
   hd (sanitize_filename cafe_deja_vu) \<notin> {46, 32} \<and> last (sanitize_filename cafe_deja_vu) \<notin> {46, 32} \<and>
   list_all (\<lambda>c. c \<notin> set invalid_chars \<and> \<not> py_isspace c) (sanitize_filename cafe_deja_vu)"
proof -
  have run: "has_anchor (py ''Mt.'') \<and> \<not> py_isspace (last (py ''Mt.'')) \<and>
     has_anchor (py ''Fuji'') \<and> \<not> py_isspace (hd (py ''Fuji'')) \<and>
     [32, 9] \<noteq> [] \<and> list_all py_isspace [32, 9]"
    by (simp add: has_anchor_def py_def py_isspace_def)
  have plain: "list_all (\<lambda>c. c \<notin> set invalid_chars \<and> \<not> py_isspace c) (py ''Mt.'') \<and>
     list_all (\<lambda>c. c \<notin> set invalid_chars \<and> \<not> py_isspace c) (py ''Fuji'') \<and>
     hd (py ''Mt.'') \<notin> {46, 32} \<and> last (py ''Fuji'') \<notin> {46, 32}"
    by (simp add: py_def py_isspace_def invalid_chars_def)
  have parts: "sub_spaces (lstrip_chars [46, 32] (sub_invalid (py ''Mt.''))) = py ''Mt.'' \<and>
     sub_spaces (rstrip_chars [46, 32] (sub_invalid (py ''Fuji''))) = py ''Fuji''"
    by (simp add: sanitize_eval lstrip_chars_def rstrip_chars_def)
  have cafe: "sanitize_filename cafe_deja_vu \<noteq> []"
    by (simp add: sanitize_eval cafe_deja_vu_def)
  note inst = sanitize_filename_safe[of cafe_deja_vu "py ''Mt.''" "py ''Fuji''" "[32, 9]"]
  have ne: "py ''Mt.'' \<noteq> [] \<and> py ''Fuji'' \<noteq> []" by (simp add: py_def)
  from inst run[unfolded list_all_iff] have dec:
    "sanitize_filename (py ''Mt.'' @ [32, 9] @ py ''Fuji'') =
       sub_spaces (lstrip_chars [46, 32] (sub_invalid (py ''Mt.''))) @ [95] @
       sub_spaces (rstrip_chars [46, 32] (sub_invalid (py ''Fuji'')))"
    by blast
  from inst ne run[unfolded list_all_iff] plain[unfolded list_all_iff] have out:
    "sanitize_filename (py ''Mt.'' @ [32, 9] @ py ''Fuji'') = py ''Mt.'' @ [95] @ py ''Fuji''"
    by blast
  from inst cafe have edges:
    "hd (sanitize_filename cafe_deja_vu) \<notin> {46, 32} \<and> last (sanitize_filename cafe_deja_vu) \<notin> {46, 32}"
    by blast
  from inst have chars:
    "list_all (\<lambda>c. c \<notin> set invalid_chars \<and> \<not> py_isspace c) (sanitize_filename cafe_deja_vu)"
    unfolding list_all_iff by blast
  from run plain dec parts out cafe edges chars show ?thesis by blast
qed

text \<open>
  C10. Sanitizing is idempotent: sanitizing a sanitized label again changes nothing,
  so the label sanitized independently in \<^verbatim>\<open>create_csv_file\<close>, \<^verbatim>\<open>download_image\<close> and
  \<^verbatim>\<open>main\<close> names the same directory and files.
\<close>

theorem sanitize_filename_idempotent:
  "sanitize_filename (sanitize_filename s) = sanitize_filename s"
  by (rule sanitize_idem)

section \<open>URL normalizer: proofs\<close>

lemma py_lits: "py ''=w0-h0'' = [61, 119, 48, 45, 104, 48]" "py ''=w'' = [61, 119]" "py ''-h'' = [45, 104]"
  by (simp_all add: py_def)

lemma match_dims_not_eq: "c \<noteq> 61 \<Longrightarrow> match_dims d (c # cs) = None"
  by (auto simp: match_dims_def split: list.splits)

lemma match_dims_Nil: "match_dims d [] = None"
  by (simp add: match_dims_def)

lemma takeWhile_stop: "x = [] \<or> \<not> P (hd x) \<Longrightarrow> takeWhile P (u @ x) = takeWhile P u"
  by (induction u) (auto, cases x, auto)

lemma dropWhile_stop: "x = [] \<or> \<not> P (hd x) \<Longrightarrow> dropWhile P (u @ x) = dropWhile P u @ x"
  by (induction u) (auto, cases x, auto)

lemma match_dims_segment:
  assumes "digit_run d a" "digit_run d b" "\<not> d 45"
  shows "match_dims d (dims_segment a b @ s) = Some (dropWhile d s)"
proof -
  from assms have a: "a \<noteq> []" "\<forall>x\<in>set a. d x" and b: "b \<noteq> []" "\<forall>x\<in>set b. d x"
    by (auto simp: digit_run_def list_all_iff)
  have t1: "takeWhile d (a @ 45 # 104 # b @ s) = a" using a assms(3) by (simp add: takeWhile_append2)
  have d1: "dropWhile d (a @ 45 # 104 # b @ s) = 45 # 104 # b @ s" using a assms(3) by (simp add: dropWhile_append2)
  have t2: "takeWhile d (b @ s) \<noteq> []" using b by (cases b) auto
  have d2: "dropWhile d (b @ s) = dropWhile d s" using b by (simp add: dropWhile_append2)
  show ?thesis
    using a by (simp add: match_dims_def dims_segment_def py_lits t1 d1 t2 d2)
qed

lemma digit_table_facts: "digit_table d \<Longrightarrow> d 48 \<and> \<not> d 45 \<and> \<not> d 61"
  by (simp add: digit_table_def ascii_digit_def)

lemma match_dims_append:
  assumes u: "u \<noteq> []" and x: "x = [] \<or> hd x = 61" and d: "\<not> d 61"
  shows "match_dims d (u @ x) = map_option (\<lambda>r. r @ x) (match_dims d u)"
proof -
  have stop: "x = [] \<or> \<not> d (hd x)" using x d by auto
  have x1: "match_dims d (e # x) = None" for e
    using x by (cases x) (auto simp: match_dims_def split: list.splits)
  have x0: "(case x of [] \<Rightarrow> None | [m] \<Rightarrow> None | m # h # r2 \<Rightarrow> if m = 45 \<and> P h r2 then f r2 else None) = None"
    for P and f :: "nat list \<Rightarrow> nat list option"
    using x by (cases x) (auto split: list.splits)
  have x2: "(case x of [] \<Rightarrow> None | h # r2 \<Rightarrow> if P \<and> h = 104 \<and> Q r2 then f r2 else None) = None"
    for P Q and f :: "nat list \<Rightarrow> nat list option"
    using x by (cases x) auto
  show ?thesis
  proof (cases u)
    case Nil
    with u show ?thesis by simp
  next
    case (Cons e u1)
    show ?thesis
    proof (cases u1)
      case Nil
      have "match_dims d [e] = None" by (simp add: match_dims_def)
      then show ?thesis by (simp add: Cons Nil x1)
    next
      case c2: (Cons w r1)
      have t1: "takeWhile d (r1 @ x) = takeWhile d r1" using stop by (rule takeWhile_stop)
      have d1: "dropWhile d (r1 @ x) = dropWhile d r1 @ x" using stop by (rule dropWhile_stop)
      show ?thesis
      proof (cases "dropWhile d r1")
        case Nil
        show ?thesis
          by (simp add: Cons c2 match_dims_def t1 d1 Nil x0)
      next
        case c3: (Cons m r')
        show ?thesis
        proof (cases r')
          case Nil
          show ?thesis
            by (simp add: Cons c2 match_dims_def t1 d1 c3 Nil x2)
        next
          case c4: (Cons h r2)
          have t2: "takeWhile d (r2 @ x) = takeWhile d r2" using stop by (rule takeWhile_stop)
          have d2: "dropWhile d (r2 @ x) = dropWhile d r2 @ x" using stop by (rule dropWhile_stop)
          show ?thesis
            by (simp add: Cons c2 match_dims_def t1 d1 c3 c4 t2 d2)
        qed
      qed
    qed
  qed
qed

lemma sub_dims_append:
  "x = [] \<or> hd x = 61 \<Longrightarrow> \<not> d 61 \<Longrightarrow> sub_dims d (u @ x) = sub_dims d u @ sub_dims d x"
proof (induction d u rule: sub_dims.induct)
  case (1 d)
  then show ?case by simp
next
  case (2 d c cs)
  have m: "match_dims d ((c # cs) @ x) = map_option (\<lambda>r. r @ x) (match_dims d (c # cs))"
    using 2(3,4) by (intro match_dims_append) auto
  show ?case
  proof (cases "match_dims d (c # cs)")
    case None
    with m 2(1)[OF None 2(3,4)] show ?thesis by simp
  next
    case (Some r)
    with m 2(2)[OF Some 2(3,4)] show ?thesis by simp
  qed
qed

lemma sub_dims_segment:
  assumes "digit_table d" "digit_run d a" "digit_run d b"
  shows "sub_dims d (p @ dims_segment a b @ s) =
         sub_dims d p @ py ''=w0-h0'' @ sub_dims d (dropWhile d s)"
proof -
  note f = digit_table_facts[OF assms(1)]
  have hd61: "hd (dims_segment a b @ s) = 61" by (simp add: dims_segment_def py_lits)
  obtain c cs where cc: "dims_segment a b @ s = c # cs" by (simp add: dims_segment_def py_lits)
  have "match_dims d (c # cs) = Some (dropWhile d s)"
    using match_dims_segment[OF assms(2,3), of s] f cc by simp
  then have "sub_dims d (c # cs) = py ''=w0-h0'' @ sub_dims d (dropWhile d s)" by simp
  moreover have "sub_dims d (p @ dims_segment a b @ s) = sub_dims d p @ sub_dims d (dims_segment a b @ s)"
    using hd61 f by (intro sub_dims_append) auto
  ultimately show ?thesis using cc by simp
qed

lemma match_dims_shape:
  assumes "match_dims d t = Some r"
  shows "\<exists>a b. digit_run d a \<and> digit_run d b \<and> t = dims_segment a b @ r"
proof -
  from assms obtain e w r1 where t: "t = e # w # r1"
    by (auto simp: match_dims_def split: list.splits)
  from assms t have ew: "e = 61" "w = 119" and a: "takeWhile d r1 \<noteq> []"
    by (auto simp: match_dims_def split: list.splits if_splits)
  from assms t obtain m h r2 where dr: "dropWhile d r1 = m # h # r2"
    by (auto simp: match_dims_def split: list.splits if_splits)
  from assms t dr have mh: "m = 45" "h = 104" and b: "takeWhile d r2 \<noteq> []" and r: "r = dropWhile d r2"
    by (auto simp: match_dims_def split: list.splits if_splits)
  let ?a = "takeWhile d r1" and ?b = "takeWhile d r2"
  have "r1 = ?a @ dropWhile d r1" by simp
  also have "\<dots> = ?a @ 45 # 104 # (?b @ dropWhile d r2)" using dr mh by simp
  finally have "t = dims_segment ?a ?b @ r" using t ew r by (simp add: dims_segment_def py_lits)
  moreover have "digit_run d ?a" "digit_run d ?b"
    using a b by (auto simp: digit_run_def list_all_iff dest: set_takeWhileD)
  ultimately show ?thesis by blast
qed

lemma sub_dims_no_match:
  "(\<And>p t. url = p @ t \<Longrightarrow> match_dims d t = None) \<Longrightarrow> sub_dims d url = url"
proof (induction url)
  case Nil
  then show ?case by simp
next
  case (Cons c cs)
  have 1: "match_dims d (c # cs) = None" using Cons.prems[of "[]" "c # cs"] by simp
  have "\<And>p t. cs = p @ t \<Longrightarrow> match_dims d t = None"
    using Cons.prems by (metis append_Cons)
  then have "sub_dims d cs = cs" by (rule Cons.IH)
  with 1 show ?case by simp
qed

lemma sub_dims_unchanged: "\<not> has_dims d url \<Longrightarrow> sub_dims d url = url"
proof (rule sub_dims_no_match)
  fix p t
  assume n: "\<not> has_dims d url" and u: "url = p @ t"
  show "match_dims d t = None"
  proof (rule ccontr)
    assume "match_dims d t \<noteq> None"
    then obtain r where "match_dims d t = Some r" by auto
    from match_dims_shape[OF this] u have "has_dims d url" by (auto simp: has_dims_def)
    with n show False by simp
  qed
qed

lemma sub_dims_no_eq: "61 \<notin> set a \<Longrightarrow> sub_dims d a = a"
  by (induction a) (auto simp: match_dims_not_eq)

lemma sub_dims_hd_eq: "x = [] \<or> hd x = 61 \<Longrightarrow> sub_dims d x = [] \<or> hd (sub_dims d x) = 61"
  by (cases x) (auto simp: py_lits split: option.splits)

lemma sub_dims_hd_nondigit:
  "\<not> d 61 \<Longrightarrow> r = [] \<or> \<not> d (hd r) \<Longrightarrow> sub_dims d r = [] \<or> \<not> d (hd (sub_dims d r))"
  by (cases r) (auto simp: py_lits split: option.splits)

lemma match_dims_rest: "match_dims d t = Some r \<Longrightarrow> r = [] \<or> \<not> d (hd r)"
  by (auto simp: match_dims_def hd_dropWhile split: list.splits if_splits)

lemma match_dims_w0h0:
  assumes "digit_table d" "y = [] \<or> \<not> d (hd y)"
  shows "match_dims d (py ''=w0-h0'' @ y) = Some y"
proof -
  note f = digit_table_facts[OF assms(1)]
  have "digit_run d [48]" using f by (simp add: digit_run_def)
  from match_dims_segment[OF this this, of y] f
  have "match_dims d (dims_segment [48] [48] @ y) = Some (dropWhile d y)" by simp
  moreover have "dropWhile d y = y" using assms(2) by (cases y) auto
  ultimately show ?thesis by (simp add: dims_segment_def py_lits)
qed

lemma match_dims_None_sub:
  assumes "\<not> d 61" "match_dims d (c # cs) = None"
  shows "match_dims d (c # sub_dims d cs) = None"
proof -
  let ?a = "takeWhile (\<lambda>x. x \<noteq> 61) cs" and ?b = "dropWhile (\<lambda>x. x \<noteq> 61) cs"
  have b: "?b = [] \<or> hd ?b = 61" using hd_dropWhile[of "\<lambda>x. x \<noteq> 61" cs] by auto
  have a: "61 \<notin> set ?a" by (auto dest: set_takeWhileD)
  have cs: "cs = ?a @ ?b" by simp
  have "sub_dims d cs = sub_dims d (?a @ ?b)" by simp
  also have "\<dots> = sub_dims d ?a @ sub_dims d ?b" using b assms(1) by (rule sub_dims_append)
  also have "\<dots> = ?a @ sub_dims d ?b" using a by (simp add: sub_dims_no_eq)
  finally have s: "sub_dims d cs = ?a @ sub_dims d ?b" .
  have "match_dims d ((c # ?a) @ ?b) = map_option (\<lambda>r. r @ ?b) (match_dims d (c # ?a))"
    using b assms(1) by (intro match_dims_append) auto
  with assms(2) have n: "match_dims d (c # ?a) = None" by simp
  have "match_dims d ((c # ?a) @ sub_dims d ?b) =
        map_option (\<lambda>r. r @ sub_dims d ?b) (match_dims d (c # ?a))"
    using sub_dims_hd_eq[OF b] assms(1) by (intro match_dims_append) auto
  with n s show ?thesis by simp
qed

lemma sub_dims_idem: "digit_table d \<Longrightarrow> sub_dims d (sub_dims d u) = sub_dims d u"
proof (induction d u rule: sub_dims.induct)
  case (1 d)
  then show ?case by simp
next
  case (2 d c cs)
  note f = digit_table_facts[OF 2(3)]
  show ?case
  proof (cases "match_dims d (c # cs)")
    case None
    from f None have "match_dims d (c # sub_dims d cs) = None" by (intro match_dims_None_sub) auto
    with None 2(1)[OF None 2(3)] show ?thesis by simp
  next
    case (Some r)
    let ?y = "sub_dims d r"
    have y: "?y = [] \<or> \<not> d (hd ?y)"
      using f match_dims_rest[OF Some] by (intro sub_dims_hd_nondigit) auto
    have m: "match_dims d (61 # py ''w0-h0'' @ ?y) = Some ?y"
      using match_dims_w0h0[OF 2(3) y] by (simp add: py_def)
    have "sub_dims d (61 # py ''w0-h0'' @ ?y) = py ''=w0-h0'' @ sub_dims d ?y"
      using m by simp
    with Some 2(2)[OF Some 2(3)] show ?thesis by (simp add: py_def)
  qed
qed

lemma dims_anywhere_append: "match_dims d t \<noteq> None \<Longrightarrow> dims_anywhere d (p @ t)"
proof (induction p)
  case Nil
  then show ?case by (cases t) (auto simp: match_dims_Nil)
next
  case (Cons c p)
  then show ?case by simp
qed

lemma dims_anywhere_split: "dims_anywhere d url \<Longrightarrow> \<exists>p t r. url = p @ t \<and> match_dims d t = Some r"
proof (induction url)
  case Nil
  then show ?case by simp
next
  case (Cons c cs)
  show ?case
  proof (cases "match_dims d (c # cs)")
    case None
    with Cons obtain p t r where "cs = p @ t" "match_dims d t = Some r" by auto
    then have "c # cs = (c # p) @ t \<and> match_dims d t = Some r" by simp
    then show ?thesis by blast
  next
    case (Some r)
    then have "c # cs = [] @ (c # cs) \<and> match_dims d (c # cs) = Some r" by simp
    then show ?thesis by blast
  qed
qed

lemma has_dims_iff: "digit_table d \<Longrightarrow> has_dims d url = dims_anywhere d url"
proof
  assume dt: "digit_table d" and "has_dims d url"
  then obtain p a b s where r: "digit_run d a" "digit_run d b" and u: "url = p @ dims_segment a b @ s"
    by (auto simp: has_dims_def)
  have "match_dims d (dims_segment a b @ s) \<noteq> None"
    using match_dims_segment[OF r, of s] digit_table_facts[OF dt] by simp
  then show "dims_anywhere d url" unfolding u by (rule dims_anywhere_append)
next
  assume "dims_anywhere d url"
  then obtain p t r where u: "url = p @ t" and m: "match_dims d t = Some r"
    using dims_anywhere_split by blast
  from match_dims_shape[OF m] u show "has_dims d url" by (auto simp: has_dims_def)
qed

lemmas dims_eval = match_dims_def ascii_digit_def py_def dims_segment_def digit_run_def

text \<open>
  C2. The normalizer is a function of the URL alone. For every digit table that is
  right on ASCII: a URL with a dimension segment has that segment (with the digits that
  follow it, which the greedy match takes too) rewritten to \<^verbatim>\<open>=w0-h0\<close>, what stands
  before and after being normalized on its own; a URL with no dimension segment comes
  back unchanged; normalizing twice is normalizing once; and two URLs that differ only in
  the digits of one segment have the same normal form, hence the same dedup key.
\<close>

theorem sub_dims_projection:
  assumes "digit_table isdigit"
  shows "(digit_run isdigit a \<and> digit_run isdigit b \<longrightarrow>
            sub_dims isdigit (p @ dims_segment a b @ s) =
            sub_dims isdigit p @ py ''=w0-h0'' @ sub_dims isdigit (dropWhile isdigit s)) \<and>
         (\<not> has_dims isdigit url \<longrightarrow> sub_dims isdigit url = url) \<and>
         sub_dims isdigit (sub_dims isdigit url) = sub_dims isdigit url \<and>
         (digit_run isdigit a \<and> digit_run isdigit b \<and> digit_run isdigit a' \<and> digit_run isdigit b' \<longrightarrow>
            sub_dims isdigit (p @ dims_segment a b @ s) = sub_dims isdigit (p @ dims_segment a' b' @ s))"
proof (intro conjI impI)
  assume "digit_run isdigit a \<and> digit_run isdigit b"
  then show "sub_dims isdigit (p @ dims_segment a b @ s) =
             sub_dims isdigit p @ py ''=w0-h0'' @ sub_dims isdigit (dropWhile isdigit s)"
    using assms by (intro sub_dims_segment) auto
next
  assume "\<not> has_dims isdigit url"
  then show "sub_dims isdigit url = url" by (rule sub_dims_unchanged)
next
  show "sub_dims isdigit (sub_dims isdigit url) = sub_dims isdigit url"
    using assms by (rule sub_dims_idem)
next
  assume r: "digit_run isdigit a \<and> digit_run isdigit b \<and> digit_run isdigit a' \<and> digit_run isdigit b'"
  then have "sub_dims isdigit (p @ dims_segment a b @ s) =
             sub_dims isdigit p @ py ''=w0-h0'' @ sub_dims isdigit (dropWhile isdigit s)"
    using assms by (intro sub_dims_segment) auto
  moreover from r have "sub_dims isdigit (p @ dims_segment a' b' @ s) =
             sub_dims isdigit p @ py ''=w0-h0'' @ sub_dims isdigit (dropWhile isdigit s)"
    using assms by (intro sub_dims_segment) auto
  ultimately show "sub_dims isdigit (p @ dims_segment a b @ s) =
                   sub_dims isdigit (p @ dims_segment a' b' @ s)" by simp
qed

theorem sub_dims_projection_witness:
  "digit_table ascii_digit \<and>
   digit_run ascii_digit (py ''100'') \<and> digit_run ascii_digit (py ''999'') \<and>
   sub_dims ascii_digit (py ''a/p'' @ dims_segment (py ''100'') (py ''100'') @ py ''7-k'') =
     sub_dims ascii_digit (py ''a/p'') @ py ''=w0-h0'' @ sub_dims ascii_digit (dropWhile ascii_digit (py ''7-k'')) \<and>
   sub_dims ascii_digit (py ''a/p'' @ dims_segment (py ''100'') (py ''100'') @ py ''7-k'') = py ''a/p=w0-h0-k'' \<and>
   sub_dims ascii_digit (py ''a/p'' @ dims_segment (py ''100'') (py ''100'') @ py ''7-k'') =
     sub_dims ascii_digit (py ''a/p'' @ dims_segment (py ''999'') (py ''999'') @ py ''7-k'') \<and>
   \<not> has_dims ascii_digit (py ''a/p=s512-h'') \<and>
   sub_dims ascii_digit (py ''a/p=s512-h'') = py ''a/p=s512-h'' \<and>
   sub_dims ascii_digit (sub_dims ascii_digit (py ''=w1-h2=w3-h45'')) =
     sub_dims ascii_digit (py ''=w1-h2=w3-h45'') \<and>
   sub_dims ascii_digit (py ''=w1-h2=w3-h45'') = py ''=w0-h0=w0-h0''"
proof -
  have dt: "digit_table ascii_digit" by (simp add: digit_table_def)
  have runs: "digit_run ascii_digit (py ''100'') \<and> digit_run ascii_digit (py ''999'')"
    by (simp add: dims_eval)
  have none: "\<not> has_dims ascii_digit (py ''a/p=s512-h'')"
    unfolding has_dims_iff[OF dt] by (simp add: dims_eval)
  have out: "sub_dims ascii_digit (py ''a/p'' @ dims_segment (py ''100'') (py ''100'') @ py ''7-k'') = py ''a/p=w0-h0-k''"
    by (simp add: dims_eval)
  have out2: "sub_dims ascii_digit (py ''=w1-h2=w3-h45'') = py ''=w0-h0=w0-h0''"
    by (simp add: dims_eval)
  note inst = sub_dims_projection[OF dt, of "py ''100''" "py ''100''" "py ''a/p''" "py ''7-k''"]
  from inst[of "py ''a/p=s512-h''" "py ''999''" "py ''999''"] runs none out
  have 1: "sub_dims ascii_digit (py ''a/p'' @ dims_segment (py ''100'') (py ''100'') @ py ''7-k'') =
     sub_dims ascii_digit (py ''a/p'') @ py ''=w0-h0'' @ sub_dims ascii_digit (dropWhile ascii_digit (py ''7-k''))"
    and 2: "sub_dims ascii_digit (py ''a/p'' @ dims_segment (py ''100'') (py ''100'') @ py ''7-k'') =
     sub_dims ascii_digit (py ''a/p'' @ dims_segment (py ''999'') (py ''999'') @ py ''7-k'')"
    and 3: "sub_dims ascii_digit (py ''a/p=s512-h'') = py ''a/p=s512-h''"
    by blast+
  from inst[of "py ''=w1-h2=w3-h45''" "py ''999''" "py ''999''"]
  have 4: "sub_dims ascii_digit (sub_dims ascii_digit (py ''=w1-h2=w3-h45'')) =
     sub_dims ascii_digit (py ''=w1-h2=w3-h45'')" by blast
  from dt runs none out out2 1 2 3 4 show ?thesis by blast
qed

section \<open>Orchestrator: proofs\<close>

lemma list_of_set_Nil: "list_of_set e [] = []"
  by (simp add: list_of_set_def)

lemma scrape_not_found:
  "\<not> search_found obs \<Longrightarrow>
   scrape_location_images sc e obs location_name mi mw w =
     (search_location location_name w, Some (False, 0))"
  by (simp add: scrape_location_images_def)

lemma searches_funpow:
  "(search_location l ^^ m) w = w\<lparr>searches := searches w @ replicate m l\<rparr>"
proof (induction m)
  case 0
  then show ?case by simp
next
  case (Suc m)
  then show ?case by (simp add: search_location_def replicate_append_same)
qed

lemma takeWhile_upt_all: "\<forall>k\<in>{i..<m}. P k \<Longrightarrow> takeWhile P [i..<m] = [i..<m]"
  by (simp add: takeWhile_eq_all_conv)

lemma takeWhile_upt_first:
  assumes "i \<le> k" "k < m" "\<forall>j\<in>{i..<k}. P j" "\<not> P k"
  shows "takeWhile P [i..<m] = [i..<k]"
proof -
  have "[i..<m] = [i..<k] @ k # [Suc k..<m]"
    using assms(1,2) by (metis le_eq_less_or_eq less_imp_le_nat upt_add_eq_append upt_conv_Cons le_Suc_ex)
  moreover have "takeWhile P ([i..<k] @ k # [Suc k..<m]) = [i..<k] @ takeWhile P (k # [Suc k..<m])"
    using assms(3) by (intro takeWhile_append2) auto
  ultimately show ?thesis using assms(4) by simp
qed

lemma main_loop_not_found:
  assumes scr: "\<And>k w. scrape k w = (lg w, Some (False, 0))"
    and con: "\<And>k w. good w \<Longrightarrow> construct k w = (w, ok k)"
    and pres: "\<And>w. good w \<Longrightarrow> good (lg w)"
    and M: "M = nat (retry_attempts a)"
  shows "j < M \<Longrightarrow> good w \<Longrightarrow>
    main_loop scrape construct a False c (int j) w =
      ((lg ^^ (1 + length (takeWhile ok [Suc j..<M]))) w,
       if \<forall>k\<in>{Suc j..<M}. ok k then Loop_Done False 0 (retry_attempts a) M
       else Init_Raised (Suc j + length (takeWhile ok [Suc j..<M])))"
proof (induction "M - j" arbitrary: j c w)
  case 0
  then show ?case by simp
next
  case (Suc n)
  have lt: "int j < retry_attempts a" using Suc(3) M by simp
  have step: "scrape (nat (int j)) w = (lg w, Some (False, 0))" by (rule scr)
  have iw: "good (lg w)" using Suc(4) by (rule pres)
  show ?case
  proof (cases "Suc j < M")
    case False
    then have e: "Suc j = M" using Suc(3) by simp
    then have n1: "\<not> int j + 1 < retry_attempts a" using M by simp
    have eq: "int j + 1 = retry_attempts a" using e M by simp
    have "main_loop scrape construct a False 0 (int j + 1) (lg w) =
            (lg w, Loop_Done False 0 (int j + 1) (nat (int j + 1)))"
      using n1 by (subst main_loop.simps) simp
    also have "nat (int j + 1) = M" using e by (simp add: nat_add_distrib)
    finally have rec: "main_loop scrape construct a False 0 (int j + 1) (lg w) =
            (lg w, Loop_Done False 0 (retry_attempts a) M)" by (simp only: eq)
    have emp: "[Suc j..<M] = []" "{Suc j..<M} = {}" using e by simp_all
    show ?thesis
      using lt n1 step by (subst main_loop.simps) (simp add: rec emp)
  next
    case True
    then have l1: "int j + 1 < retry_attempts a" using M by simp
    have c1: "construct (nat (int j + 1)) (lg w) = (lg w, ok (Suc j))"
      using con[OF iw, of "nat (int j + 1)"] by (simp add: nat_add_distrib)
    have up: "[Suc j..<M] = Suc j # [Suc (Suc j)..<M]" using True by (simp add: upt_conv_Cons)
    show ?thesis
    proof (cases "ok (Suc j)")
      case False
      have tw: "takeWhile ok [Suc j..<M] = []" using False up by simp
      have ex: "\<not> (\<forall>k\<in>{Suc j..<M}. ok k)" using False True by auto
      show ?thesis
        using lt l1 step c1 False ex
        by (subst main_loop.simps) (simp add: tw nat_add_distrib)
    next
      case ok1: True
      have n: "n = M - (Suc j)" using Suc(2) by simp
      note ih = Suc(1)[OF n True iw, of 0]
      have tw: "takeWhile ok [Suc j..<M] = (Suc j) # takeWhile ok [Suc (Suc j)..<M]"
        using ok1 up by simp
      have all: "(\<forall>k\<in>{Suc j..<M}. ok k) \<longleftrightarrow> (\<forall>k\<in>{Suc (Suc j)..<M}. ok k)"
      proof
        assume "\<forall>k\<in>{Suc j..<M}. ok k" then show "\<forall>k\<in>{Suc (Suc j)..<M}. ok k" by auto
      next
        assume a: "\<forall>k\<in>{Suc (Suc j)..<M}. ok k"
        show "\<forall>k\<in>{Suc j..<M}. ok k"
        proof
          fix k assume "k \<in> {Suc j..<M}"
          then have "k = Suc j \<or> k \<in> {Suc (Suc j)..<M}" by auto
          with a ok1 show "ok k" by auto
        qed
      qed
      have rec: "main_loop scrape construct a False 0 (int j + 1) (lg w) =
          ((lg ^^ (1 + length (takeWhile ok [Suc (Suc j)..<M]))) (lg w),
           if \<forall>k\<in>{Suc (Suc j)..<M}. ok k then Loop_Done False 0 (retry_attempts a) M
           else Init_Raised (Suc (Suc j) + length (takeWhile ok [Suc (Suc j)..<M])))"
        using ih by (simp add: add.commute)
      have fp: "(lg ^^ (1 + length (takeWhile ok [Suc (Suc j)..<M]))) (lg w) =
                (lg ^^ (1 + length (takeWhile ok [Suc j..<M]))) w"
        by (simp add: tw funpow_swap1)
      show ?thesis
        using lt l1 step c1 ok1
        by (subst main_loop.simps) (simp add: rec fp[simplified] all tw nat_add_distrib del: upt_Suc)
    qed
  qed
qed

lemma path_exists_search: "path_exists (search_location l w) p = path_exists w p"
  by (simp add: path_exists_def search_location_def)

lemma construct_call_exists:
  "path_exists w (download_dir_arg a) \<Longrightarrow> construct_call a r k w = (w, \<not> init_fails r k)"
  by (simp add: construct_call_def scraper_init_def ensure_dir_def scraper_of_def)

lemma scrape_call_not_found:
  "\<not> search_found (attempt_obs r k) \<Longrightarrow>
   scrape_call a r k w = (search_location (location a) w, Some (False, 0))"
  by (simp add: scrape_call_def scrape_not_found)

lemma main_not_found:
  fixes a :: args and r :: run_obs and w :: world
  assumes nf: "\<forall>k. \<not> search_found (attempt_obs r k)"
  defines "d \<equiv> download_dir_arg a"
  defines "P \<equiv> path_exists w d \<or> \<not> makedirs_fails (attempt_env r 0) d"
  defines "n \<equiv> (if P then length (takeWhile (\<lambda>k. \<not> init_fails r k) [0..<nat (retry_attempts a)]) else 0)"
  shows "main a r w =
           ((if P \<and> \<not> path_exists w d then w\<lparr>dirs := insert d (dirs w)\<rparr> else w)
              \<lparr>searches := searches w @ replicate n (location a)\<rparr>,
            Some (1, n))"
proof (cases P)
  case False
  then have "construct_call a r 0 w = (w, False)"
    by (simp add: P_def d_def construct_call_def scraper_init_def ensure_dir_def scraper_of_def)
  then show ?thesis using False by (simp add: main_def n_def)
next
  case True
  let ?w1 = "if path_exists w d then w else w\<lparr>dirs := insert d (dirs w)\<rparr>"
  let ?ok = "\<lambda>k. \<not> init_fails r k"
  let ?M = "nat (retry_attempts a)"
  have c0: "construct_call a r 0 w = (?w1, \<not> init_fails r 0)"
    using True by (auto simp: P_def d_def construct_call_def scraper_init_def ensure_dir_def scraper_of_def)
  have g1: "path_exists ?w1 d" by (simp add: path_exists_def)
  have s1: "searches ?w1 = searches w" by simp
  show ?thesis
  proof (cases "init_fails r 0")
    case f: True
    have "takeWhile ?ok [0..<?M] = []"
    proof (cases "0 < ?M")
      case True
      then have "[0..<?M] = 0 # [Suc 0..<?M]" by (simp add: upt_conv_Cons)
      then show ?thesis using f by simp
    next
      case False
      then show ?thesis by simp
    qed
    then have "n = 0" by (simp add: n_def)
    then show ?thesis using c0 f True by (simp add: main_def)
  next
    case ok0: False
    show ?thesis
    proof (cases "0 < ?M")
      case False
      then have le: "\<not> 0 < retry_attempts a" by simp
      have "main_loop (scrape_call a r) (construct_call a r) a False 0 0 ?w1 =
              (?w1, Loop_Done False 0 0 0)"
        using le by (subst main_loop.simps) simp
      moreover have "n = 0" using False by (simp add: n_def)
      ultimately show ?thesis using c0 ok0 True by (simp add: main_def)
    next
      case pos: True
      let ?t = "takeWhile ?ok [Suc 0..<?M]"
      have ml: "main_loop (scrape_call a r) (construct_call a r) a False 0 (int 0) ?w1 =
        ((search_location (location a) ^^ (1 + length ?t)) ?w1,
         if \<forall>k\<in>{Suc 0..<?M}. ?ok k then Loop_Done False 0 (retry_attempts a) ?M
         else Init_Raised (Suc 0 + length ?t))"
      proof (rule main_loop_not_found[where good = "\<lambda>w. path_exists w d"])
        show "scrape_call a r k w = (search_location (location a) w, Some (False, 0))" for k w
          using nf by (simp add: scrape_call_not_found)
        show "construct_call a r k w = (w, \<not> init_fails r k)" if "path_exists w d" for k w
          using that unfolding d_def by (rule construct_call_exists)
        show "path_exists (search_location (location a) w) d" if "path_exists w d" for w
          using that by (simp add: path_exists_search)
        show "?M = nat (retry_attempts a)" by simp
        show "0 < ?M" by (rule pos)
        show "path_exists ?w1 d" by (rule g1)
      qed
      have up: "[0..<?M] = 0 # [Suc 0..<?M]" using pos by (simp add: upt_conv_Cons)
      have n: "n = 1 + length ?t" using True ok0 by (simp add: n_def up)
      have all: "(\<forall>k\<in>{Suc 0..<?M}. ?ok k) \<Longrightarrow> ?M = 1 + length ?t"
      proof -
        assume "\<forall>k\<in>{Suc 0..<?M}. ?ok k"
        then have t: "?t = [Suc 0..<?M]" by (rule takeWhile_upt_all)
        have "length ?t = ?M - Suc 0" by (simp only: t length_upt)
        then show ?thesis using pos by simp
      qed
      have w: "(search_location (location a) ^^ (1 + length ?t)) ?w1 =
                 ?w1\<lparr>searches := searches w @ replicate n (location a)\<rparr>"
        by (simp only: searches_funpow s1 n)
      have P: "P" by (rule True)
      have fin: "(?w1\<lparr>searches := searches w @ replicate n (location a)\<rparr>) =
            ((if P \<and> \<not> path_exists w d then w\<lparr>dirs := insert d (dirs w)\<rparr> else w)
              \<lparr>searches := searches w @ replicate n (location a)\<rparr>)"
        using P by simp
      show ?thesis
      proof (cases "\<forall>k\<in>{Suc 0..<?M}. ?ok k")
        case a: True
        have Mn: "?M = n" using all[OF a] n by simp
        from ml have "main_loop (scrape_call a r) (construct_call a r) a False 0 0 ?w1 =
            ((search_location (location a) ^^ (1 + length ?t)) ?w1,
             Loop_Done False 0 (retry_attempts a) ?M)"
          by (simp only: if_P[OF a] of_nat_0)
        then have "main_loop (scrape_call a r) (construct_call a r) a False 0 0 ?w1 =
            (?w1\<lparr>searches := searches w @ replicate n (location a)\<rparr>,
             Loop_Done False 0 (retry_attempts a) ?M)"
          by (simp only: w)
        then have m: "main_loop (scrape_call a r) (construct_call a r) a False 0 0 ?w1 =
            (?w1\<lparr>searches := searches w @ replicate n (location a)\<rparr>,
             Loop_Done False 0 (retry_attempts a) n)"
          by (simp only: Mn)
        have "main a r w = (?w1\<lparr>searches := searches w @ replicate n (location a)\<rparr>, Some (1, n))"
          using ok0 by (simp add: main_def c0 m)
        then show ?thesis by (simp only: fin)
      next
        case b: False
        from ml have "main_loop (scrape_call a r) (construct_call a r) a False 0 0 ?w1 =
            ((search_location (location a) ^^ (1 + length ?t)) ?w1,
             Init_Raised (Suc 0 + length ?t))"
          by (simp only: if_not_P[OF b] of_nat_0)
        moreover have "Suc 0 + length ?t = n" using n by simp
        ultimately have m: "main_loop (scrape_call a r) (construct_call a r) a False 0 0 ?w1 =
            (?w1\<lparr>searches := searches w @ replicate n (location a)\<rparr>, Init_Raised n)"
          by (simp only: w)
        have "main a r w = (?w1\<lparr>searches := searches w @ replicate n (location a)\<rparr>, Some (1, n))"
          using ok0 by (simp add: main_def c0 m)
        then show ?thesis by (simp only: fin)
      qed
    qed
  qed
qed







text \<open>
  C5, as stated, fails: the location is never found and the bound is three, but the
  browser does not start when the scraper is built again after the first attempt. The
  constructor's exception leaves the loop (handler of line 1127): one attempt is made,
  not three, and the exit code is 1.
\<close>

theorem main_attempts_bound_counterexample:
  "(\<forall>k. \<not> search_found (attempt_obs browser_fails_second k)) \<and>
   retry_attempts sample_args = 3 \<and>
   main sample_args browser_fails_second empty_world =
     (empty_world\<lparr>dirs := {py ''out''}, searches := [py ''Cafe'']\<rparr>, Some (1, 1))"
proof -
  have nf: "\<forall>k. \<not> search_found (attempt_obs browser_fails_second k)"
    by (simp add: browser_fails_second_def)
  have n: "retry_attempts sample_args = 3" by (simp add: sample_args_def)
  have up: "takeWhile (\<lambda>k. \<not> init_fails browser_fails_second k) [0..<nat 3] = [0]"
    by (simp add: upt_rec browser_fails_second_def)
  have "main sample_args browser_fails_second empty_world =
     (empty_world\<lparr>dirs := {py ''out''}, searches := [py ''Cafe'']\<rparr>, Some (1, 1))"
    by (simp only: main_not_found[OF nf] n up)
       (simp add: browser_fails_second_def sample_args_def empty_world_def calm_env_def path_exists_def)
  with nf n show ?thesis by blast
qed

text \<open>
  C5, amended. When the navigator reports at every attempt that the location was not
  found, \<^verbatim>\<open>main\<close> returns the exit code 1 and makes at most as many pipeline attempts as
  the configured bound, each seen as one call of \<^verbatim>\<open>search_location\<close> in the world; nothing
  else changes but the download directory, which the constructor may make. It makes
  exactly that many (none for a bound below 1) when the first constructor gets its
  download directory and the browser starts at every construction. If the browser does
  not start at construction \<open>k\<close>, the first to fail, \<open>k\<close> attempts are made; if the download
  directory cannot be made, none.
\<close>

theorem main_attempts_at_most_bound:
  assumes "\<forall>k. \<not> search_found (attempt_obs r k)"
  shows "\<exists>n w'. main a r w = (w', Some (1, n)) \<and>
           n \<le> nat (retry_attempts a) \<and>
           searches w' = searches w @ replicate n (location a) \<and>
           dirs w' \<subseteq> insert (download_dir_arg a) (dirs w) \<and>
           files w' = files w \<and> csvs w' = csvs w \<and> requests w' = requests w \<and>
           (dir_ready a r w \<and> (\<forall>k<nat (retry_attempts a). \<not> init_fails r k) \<longrightarrow>
              n = nat (retry_attempts a)) \<and>
           (\<forall>k<nat (retry_attempts a).
              dir_ready a r w \<and> (\<forall>j<k. \<not> init_fails r j) \<and> init_fails r k \<longrightarrow> n = k) \<and>
           (\<not> dir_ready a r w \<longrightarrow> n = 0)"
proof -
  let ?M = "nat (retry_attempts a)"
  let ?ok = "\<lambda>k. \<not> init_fails r k"
  let ?P = "path_exists w (download_dir_arg a) \<or>
            \<not> makedirs_fails (attempt_env r 0) (download_dir_arg a)"
  let ?n = "if ?P then length (takeWhile ?ok [0..<?M]) else 0"
  let ?w = "(if ?P \<and> \<not> path_exists w (download_dir_arg a)
             then w\<lparr>dirs := insert (download_dir_arg a) (dirs w)\<rparr> else w)
              \<lparr>searches := searches w @ replicate ?n (location a)\<rparr>"
  have m: "main a r w = (?w, Some (1, ?n))" using assms by (rule main_not_found)
  have le: "?n \<le> ?M" using length_takeWhile_le[of ?ok "[0..<?M]"] by simp
  have all: "?n = ?M" if "dir_ready a r w" "\<forall>k<?M. ?ok k"
  proof -
    have tw: "takeWhile ?ok [0..<?M] = [0..<?M]" using that(2) by (intro takeWhile_upt_all) auto
    have "length (takeWhile ?ok [0..<?M]) = ?M" by (simp only: tw length_upt diff_zero)
    then show ?thesis using that(1) by (simp add: dir_ready_def)
  qed
  have first: "?n = k" if "k < ?M" "dir_ready a r w" "\<forall>j<k. ?ok j" "init_fails r k" for k
  proof -
    have tw: "takeWhile ?ok [0..<?M] = [0..<k]"
      using that(1,3,4) by (intro takeWhile_upt_first) auto
    have "length (takeWhile ?ok [0..<?M]) = k" by (simp only: tw length_upt diff_zero)
    then show ?thesis using that(2) by (simp add: dir_ready_def)
  qed
  have none: "?n = 0" if "\<not> dir_ready a r w" using that by (simp add: dir_ready_def)
  have "main a r w = (?w, Some (1, ?n)) \<and> ?n \<le> ?M \<and>
        searches ?w = searches w @ replicate ?n (location a) \<and>
        dirs ?w \<subseteq> insert (download_dir_arg a) (dirs w) \<and>
        files ?w = files w \<and> csvs ?w = csvs w \<and> requests ?w = requests w \<and>
        (dir_ready a r w \<and> (\<forall>k<?M. ?ok k) \<longrightarrow> ?n = ?M) \<and>
        (\<forall>k<?M. dir_ready a r w \<and> (\<forall>j<k. ?ok j) \<and> init_fails r k \<longrightarrow> ?n = k) \<and>
        (\<not> dir_ready a r w \<longrightarrow> ?n = 0)"
  proof (intro conjI)
    show "main a r w = (?w, Some (1, ?n))" by (rule m)
    show "?n \<le> ?M" by (rule le)
    show "searches ?w = searches w @ replicate ?n (location a)" by simp
    show "dirs ?w \<subseteq> insert (download_dir_arg a) (dirs w)" by auto
    show "files ?w = files w" by simp
    show "csvs ?w = csvs w" by simp
    show "requests ?w = requests w" by simp
    show "dir_ready a r w \<and> (\<forall>k<?M. ?ok k) \<longrightarrow> ?n = ?M" using all by blast
    show "\<forall>k<?M. dir_ready a r w \<and> (\<forall>j<k. ?ok j) \<and> init_fails r k \<longrightarrow> ?n = k"
      using first by blast
    show "\<not> dir_ready a r w \<longrightarrow> ?n = 0" using none by blast
  qed
  then show ?thesis by blast
qed

theorem main_attempts_at_most_bound_witness:
  "(\<forall>k. \<not> search_found (attempt_obs never_found k)) \<and>
   dir_ready sample_args never_found empty_world \<and>
   (\<forall>k. \<not> init_fails never_found k) \<and>
   retry_attempts sample_args = 3 \<and>
   snd (main sample_args never_found empty_world) = Some (1, 3) \<and>
   searches (fst (main sample_args never_found empty_world)) =
     [py ''Cafe'', py ''Cafe'', py ''Cafe'']"
proof -
  have h: "\<forall>k. \<not> search_found (attempt_obs never_found k)" by (simp add: never_found_def)
  have d: "dir_ready sample_args never_found empty_world"
    by (simp add: dir_ready_def never_found_def calm_env_def)
  have i: "\<forall>k. \<not> init_fails never_found k" by (simp add: never_found_def)
  have n: "retry_attempts sample_args = 3" by (simp add: sample_args_def)
  have l: "location sample_args = py ''Cafe''" by (simp add: sample_args_def)
  have s: "searches empty_world = []" by (simp add: empty_world_def)
  from main_attempts_at_most_bound[OF h, of sample_args empty_world]
  obtain m w' where r: "main sample_args never_found empty_world = (w', Some (1, m))"
    and sw: "searches w' = searches empty_world @ replicate m (location sample_args)"
    and ex: "dir_ready sample_args never_found empty_world \<and>
             (\<forall>k<nat (retry_attempts sample_args). \<not> init_fails never_found k) \<longrightarrow>
             m = nat (retry_attempts sample_args)"
    by blast
  have m3: "m = 3" using ex d i n by simp
  have r1: "snd (main sample_args never_found empty_world) = Some (1, 3)" using r m3 by simp
  have "replicate 3 (py ''Cafe'') = [py ''Cafe'', py ''Cafe'', py ''Cafe'']"
    by (simp add: numeral_3_eq_3)
  then have r2: "searches (fst (main sample_args never_found empty_world)) =
     [py ''Cafe'', py ''Cafe'', py ''Cafe'']"
    using r sw m3 l s by simp
  from h d i n r1 r2 show ?thesis by blast
qed




section \<open>Extractor: the image cap\<close>

lemma list_of_set_facts:
  "length (list_of_set e xs) = length xs" "set (list_of_set e xs) = set xs"
  "distinct (list_of_set e xs) = distinct xs"
  by (simp_all add: list_of_set_def)

lemma insort_key_const: "insort_key (\<lambda>u. 0::nat) x ys = x # ys"
  by (cases ys) simp_all

lemma sort_key_const: "sort_key (\<lambda>u. 0::nat) xs = xs"
  by (induction xs) (simp_all add: insort_key_const)

lemma list_of_set_calm: "list_of_set calm_env xs = xs"
  by (simp add: list_of_set_def calm_env_def sort_key_const)

lemma calm_digits: "is_decimal calm_env = ascii_digit"
  by (simp add: calm_env_def)

lemma add_url_urls:
  "add_url e cp u (w, s) = (w', s') \<Longrightarrow>
   (image_urls s' = image_urls s \<or> image_urls s' = image_urls s @ [u]) \<and>
   found_image s' = found_image s \<and> consecutive_errors s' = consecutive_errors s \<and>
   last_count s' = last_count s \<and> scroll_attempts s' = scroll_attempts s"
  by (auto simp: add_url_def Let_def split: if_splits option.splits)

lemma mark_found_add_url:
  "mark_found (add_url e cp u (w, s)) = (w', s') \<Longrightarrow>
   found_image s' \<and> length (image_urls s) \<le> length (image_urls s') \<and>
   length (image_urls s') \<le> length (image_urls s) + 1 \<and>
   last_count s' = last_count s \<and> scroll_attempts s' = scroll_attempts s"
  by (cases "add_url e cp u (w, s)") (auto simp: mark_found_def dest!: add_url_urls)

lemma read_elements_urls:
  "read_elements e cp rs (w, s) = (w', s') \<Longrightarrow>
   (found_image s' \<or> (image_urls s' = image_urls s \<and> \<not> found_image s)) \<and>
   length (image_urls s) \<le> length (image_urls s') \<and>
   length (image_urls s') \<le> length (image_urls s) + 1 \<and>
   (found_image s \<longrightarrow> found_image s') \<and>
   last_count s' = last_count s \<and> scroll_attempts s' = scroll_attempts s"
proof (induction e cp rs "(w, s)" rule: read_elements.induct)
  case (6 e csv_path current_url rest)
  show ?case
  proof (cases "current_url \<noteq> [] \<and> is_image_url current_url")
    case True
    with 6(2) have "mark_found (add_url e csv_path (sub_dims (is_decimal e) current_url) (w, s)) = (w', s')"
      by simp
    from mark_found_add_url[OF this] show ?thesis by auto
  next
    case False
    with 6 show ?thesis by auto
  qed
qed auto

lemma fold_read_elements_urls:
  "fold (read_elements e cp) rss (w, s) = (w', s') \<Longrightarrow>
   (found_image s' \<or> (image_urls s' = image_urls s \<and> \<not> found_image s)) \<and>
   length (image_urls s) \<le> length (image_urls s') \<and>
   length (image_urls s') \<le> length (image_urls s) + length rss \<and>
   (found_image s \<longrightarrow> found_image s') \<and>
   last_count s' = last_count s \<and> scroll_attempts s' = scroll_attempts s"
proof (induction rss arbitrary: w s)
  case Nil
  then show ?case by auto
next
  case (Cons rs rss)
  obtain w1 s1 where r: "read_elements e cp rs (w, s) = (w1, s1)" by (cases "read_elements e cp rs (w, s)")
  with Cons.prems have f: "fold (read_elements e cp) rss (w1, s1) = (w', s')" by simp
  from read_elements_urls[OF r] Cons.IH[OF f] show ?case by auto
qed

lemma read_script_urls:
  "read_script e cp us (w, s) = (w', s') \<Longrightarrow>
   (found_image s' \<or> (image_urls s' = image_urls s \<and> \<not> found_image s)) \<and>
   length (image_urls s) \<le> length (image_urls s') \<and>
   length (image_urls s') \<le> length (image_urls s) + length us \<and>
   (found_image s \<longrightarrow> found_image s') \<and>
   last_count s' = last_count s \<and> scroll_attempts s' = scroll_attempts s"
proof (induction us arbitrary: w s)
  case Nil
  then show ?case by auto
next
  case (Cons u us)
  show ?case
  proof (cases "is_image_url u")
    case True
    obtain w1 s1 where r: "mark_found (add_url e cp (sub_dims (is_decimal e) u) (w, s)) = (w1, s1)"
      by (cases "mark_found (add_url e cp (sub_dims (is_decimal e) u) (w, s))")
    with Cons.prems True have f: "read_script e cp us (w1, s1) = (w', s')" by simp
    from mark_found_add_url[OF r] Cons.IH[OF f] show ?thesis by auto
  next
    case False
    with Cons.prems have "read_script e cp us (w, s) = (w', s')" by simp
    from Cons.IH[OF this] show ?thesis by auto
  qed
qed

lemma gallery_step_urls:
  assumes "gallery_step e cp mi obs (w, s) = ((w', s'), r)"
  shows "length (image_urls s) \<le> length (image_urls s') \<and>
         length (image_urls s') \<le> length (image_urls s) + step_capacity obs \<and>
         (r = Some Error_Budget \<longrightarrow> image_urls s' = image_urls s) \<and>
         (r = Some Max_Images \<longrightarrow> cap_reached mi (length (image_urls s'))) \<and>
         (r \<noteq> Some Max_Images \<and> r \<noteq> Some Error_Budget \<longrightarrow>
            \<not> cap_reached mi (length (image_urls s')))"
proof -
  let ?s0 = "s\<lparr>found_image := False\<rparr>"
  obtain w1 s1 where f1: "fold (read_elements e cp) (take 6 (selector_reads obs)) (w, ?s0) = (w1, s1)"
    by (cases "fold (read_elements e cp) (take 6 (selector_reads obs)) (w, ?s0)")
  let ?ws2 = "if \<not> found_image s1
              then (case script_imgs obs of None \<Rightarrow> (w1, s1)
                    | Some all_imgs \<Rightarrow> read_script e cp all_imgs (w1, s1))
              else (w1, s1)"
  obtain w2 s2 where f2: "?ws2 = (w2, s2)" by (cases ?ws2)
  note a = fold_read_elements_urls[OF f1]
  have b: "length (image_urls s) \<le> length (image_urls s2) \<and>
           length (image_urls s2) \<le> length (image_urls s) + step_capacity obs \<and>
           (\<not> found_image s2 \<longrightarrow> image_urls s2 = image_urls s)"
  proof (cases "found_image s1")
    case True
    with f2 have "s2 = s1" by simp
    with a True show ?thesis by (auto simp: step_capacity_def)
  next
    case nf: False
    with a have u1: "image_urls s1 = image_urls s" by auto
    show ?thesis
    proof (cases "script_imgs obs")
      case None
      with f2 nf have "s2 = s1" by simp
      with u1 show ?thesis by simp
    next
      case (Some all_imgs)
      with f2 nf have "read_script e cp all_imgs (w1, s1) = (w2, s2)" by simp
      from read_script_urls[OF this] u1 nf Some show ?thesis
        by (auto simp: step_capacity_def)
    qed
  qed
  let ?s3 = "if \<not> found_image s2 then s2\<lparr>consecutive_errors := consecutive_errors s2 + 1\<rparr> else s2"
  have s3: "image_urls ?s3 = image_urls s2" "found_image ?s3 = found_image s2" by simp_all
  from assms f1 f2 have
    "(if \<not> found_image ?s3 \<and> 5 \<le> consecutive_errors ?s3 then ((w2, ?s3), Some Error_Budget)
      else if cap_reached mi (length (image_urls ?s3)) then ((w2, ?s3), Some Max_Images)
      else if \<not> next_clicked obs then ((w2, ?s3), Some No_Next)
      else
        let s4 = ?s3\<lparr>scroll_attempts :=
                       (if length (image_urls ?s3) = last_count ?s3
                        then scroll_attempts ?s3 + 1 else 0),
                     last_count := length (image_urls ?s3)\<rparr> in
        if 30 \<le> scroll_attempts s4 then ((w2, s4), Some Stagnation)
        else ((w2, s4), None)) = ((w', s'), r)"
    by (simp add: gallery_step_def Let_def)
  then show ?thesis using b s3
    by (auto simp: Let_def split: if_splits)
qed

lemma gallery_loop_cap:
  assumes m: "0 < m"
  shows "length (image_urls s) < nat m \<Longrightarrow> \<forall>obs\<in>set sts. step_capacity obs \<le> k \<Longrightarrow>
         gallery_loop e cp (Some m) sts (w, s) = ((w', s'), r) \<Longrightarrow>
         length (image_urls s') \<le> nat m - 1 + k \<and>
         (r = Some Max_Images \<longrightarrow> nat m \<le> length (image_urls s')) \<and>
         (r \<noteq> Some Max_Images \<longrightarrow> length (image_urls s') < nat m)"
proof (induction sts arbitrary: w s)
  case Nil
  then show ?case by auto
next
  case (Cons obs sts)
  obtain w1 s1 r1 where g: "gallery_step e cp (Some m) obs (w, s) = ((w1, s1), r1)"
    by (cases "gallery_step e cp (Some m) obs (w, s)") auto
  note st = gallery_step_urls[OF g]
  have k: "step_capacity obs \<le> k" using Cons.prems(2) by simp
  show ?case
  proof (cases r1)
    case None
    with st have lt: "length (image_urls s1) < nat m" using m by (auto simp: cap_reached_def)
    from Cons.prems(3) g None have "gallery_loop e cp (Some m) sts (w1, s1) = ((w', s'), r)" by simp
    from Cons.IH[OF lt _ this] Cons.prems(2) show ?thesis by simp
  next
    case (Some why)
    with Cons.prems(3) g have eq: "w' = w1" "s' = s1" "r = Some why" by simp_all
    show ?thesis
    proof (cases "why = Error_Budget")
      case True
      with st Some eq Cons.prems(1) show ?thesis by auto
    next
      case False
      with st Some eq Cons.prems(1) k m show ?thesis
        by (cases "why = Max_Images") (auto simp: cap_reached_def)
    qed
  qed
qed

lemmas url_eval = photo_a_def photo_b_def py_def is_image_url_def match_dims_def ascii_digit_def

lemma photo_facts:
  "is_image_url photo_a" "is_image_url photo_b" "photo_a \<noteq> []" "photo_b \<noteq> []"
  "sub_dims ascii_digit photo_a = py ''https://lh3.googleusercontent.com/p/a=w0-h0''"
  "sub_dims ascii_digit photo_b = py ''https://lh3.googleusercontent.com/p/b=w0-h0''"
  by (simp_all add: url_eval)

lemma extract_gallery:
  assumes "in_gallery obs" "snd (extract_image_urls sc e obs mi loc w) = Returns (urls, why)"
  shows "\<exists>cp w0 w' s' r. gallery_loop e cp mi (steps obs) (w0, initial_state) = ((w', s'), Some r) \<and>
           urls = list_of_set e (image_urls s') \<and> why = Some r"
proof -
  let ?c = "case loc of
              Some name \<Rightarrow>
                if save_csv sc \<and> name \<noteq> []
                then map_option (\<lambda>(p, w'). (Some p, w')) (create_csv_file sc e name w)
                else Some (None, w)
            | None \<Rightarrow> Some (None, w)"
  from assms(2) obtain cp w0 where c: "?c = Some (cp, w0)"
    by (cases ?c) (auto simp: extract_image_urls_def)
  obtain w' s' r where g: "gallery_loop e cp mi (steps obs) (w0, initial_state) = ((w', s'), r)"
    by (cases "gallery_loop e cp mi (steps obs) (w0, initial_state)") auto
  from assms c g have "r \<noteq> None \<and> urls = list_of_set e (image_urls s') \<and> why = r"
    by (cases r) (auto simp: extract_image_urls_def)
  then obtain y where "r = Some y" "urls = list_of_set e (image_urls s')" "why = Some y" by auto
  with g show ?thesis by blast
qed

lemma two_hits_run:
  "extract_image_urls sample_scraper calm_env two_hits (Some 1) None empty_world =
     (empty_world, Returns ([sub_dims ascii_digit photo_a, sub_dims ascii_digit photo_b], Some Max_Images))"
  by (simp add: extract_image_urls_def two_hits_def gallery_step_def initial_state_def
      photo_facts list_of_set_calm calm_digits add_url_def mark_found_def cap_reached_def Let_def)
    (simp add: py_def)

text \<open>
  C6. The code does not keep the cap. With \<^verbatim>\<open>max_images = 1\<close>, a first iteration in
  which two image selectors each show a new photo adds both: the \<^verbatim>\<open>break\<close> of line 612
  leaves the loop over the elements of one selector, not the loop over the selectors, and
  the cap is tested after them (line 653). The run returns two URLs, more than the
  maximum its docstring promises.
\<close>

theorem gallery_cap_exceeded_counterexample:
  "in_gallery two_hits \<and>
   snd (extract_image_urls sample_scraper calm_env two_hits (Some 1) None empty_world) =
     Returns ([sub_dims ascii_digit photo_a, sub_dims ascii_digit photo_b], Some Max_Images) \<and>
   length [sub_dims ascii_digit photo_a, sub_dims ascii_digit photo_b] = 2 \<and>
   sub_dims ascii_digit photo_a \<noteq> sub_dims ascii_digit photo_b"
  by (simp add: two_hits_run) (simp add: two_hits_def photo_facts py_def)

text \<open>
  How far a run goes past the cap. For a gallery run with \<^verbatim>\<open>max_images = m\<close>, \<open>m\<close>
  positive, every iteration begins with fewer than \<open>m\<close> URLs and the loop stops for the
  cap exactly when the count is \<open>m\<close> or more at the test. When one iteration offers at
  most \<open>k\<close> URLs, the returned list has at most \<open>m - 1 + k\<close> URLs: the cap holds in the
  runs where each iteration offers one URL, and is passed by up to \<open>k - 1\<close> otherwise.
\<close>

lemma gallery_overshoot_bound:
  assumes "0 < m" and "\<forall>ob\<in>set (steps obs). step_capacity ob \<le> k"
  shows "(\<forall>w' s' r. gallery_loop e cp (Some m) (steps obs) (w, initial_state) = ((w', s'), r) \<longrightarrow>
            length (image_urls s') \<le> nat m - 1 + k \<and>
            (r = Some Max_Images \<longleftrightarrow> nat m \<le> length (image_urls s'))) \<and>
         (\<forall>urls why. in_gallery obs \<and>
            snd (extract_image_urls sc e obs (Some m) loc w) = Returns (urls, why) \<longrightarrow>
            length urls \<le> nat m - 1 + k \<and> (why = Some Max_Images \<longleftrightarrow> nat m \<le> length urls))"
proof (intro conjI allI impI)
  fix w' s' r
  assume g: "gallery_loop e cp (Some m) (steps obs) (w, initial_state) = ((w', s'), r)"
  have "length (image_urls initial_state) < nat m" using assms(1) by (simp add: initial_state_def)
  from gallery_loop_cap[OF assms(1) this assms(2) g]
  show "length (image_urls s') \<le> nat m - 1 + k"
    and "(r = Some Max_Images) = (nat m \<le> length (image_urls s'))" by auto
next
  fix urls why
  assume a: "in_gallery obs \<and> snd (extract_image_urls sc e obs (Some m) loc w) = Returns (urls, why)"
  then obtain cp0 w0 w' s' r where g: "gallery_loop e cp0 (Some m) (steps obs) (w0, initial_state) = ((w', s'), Some r)"
    and u: "urls = list_of_set e (image_urls s')" "why = Some r"
    using extract_gallery[of obs sc e "Some m" loc w urls why] by blast
  have "length (image_urls initial_state) < nat m" using assms(1) by (simp add: initial_state_def)
  from gallery_loop_cap[OF assms(1) this assms(2) g] u
  show "length urls \<le> nat m - 1 + k" and "(why = Some Max_Images) = (nat m \<le> length urls)"
    by (auto simp: list_of_set_facts)
qed

section \<open>Ledger indices\<close>

lemma ledger_after_save:
  "ledger_entries (fst (save_url_to_csv e p u i w)) p =
     ledger_entries w p @ (if append_fails e p i then [] else [(i, u)])"
  by (auto simp: save_url_to_csv_def append_row_def ledger_entries_def split: option.splits)

lemma numbered_snoc: "numbered (urls @ [u]) = numbered urls @ [(length urls + 1, u)]"
proof -
  have "[1..<length (urls @ [u]) + 1] = [1..<length urls + 1] @ [length urls + 1]"
    by (simp del: upt_Suc add: upt_Suc_append)
  then have "numbered (urls @ [u]) = zip ([1..<length urls + 1] @ [length urls + 1]) (urls @ [u])"
    by (simp only: numbered_def)
  also have "\<dots> = zip [1..<length urls + 1] urls @ zip [length urls + 1] [u]"
    by (rule zip_append) (simp del: upt_Suc)
  finally show ?thesis by (simp add: numbered_def)
qed

lemma kept_append: "kept e p (xs @ ys) = kept e p xs @ kept e p ys"
  by (simp add: kept_def)

lemma add_url_ledger: "ledger_ok e p ws \<Longrightarrow> ledger_ok e p (add_url e (Some p) u ws)"
  by (cases ws)
    (auto simp: ledger_ok_def add_url_def Let_def ledger_after_save numbered_snoc kept_append kept_def)

lemma mark_found_ledger: "ledger_ok e p ws \<Longrightarrow> ledger_ok e p (mark_found ws)"
  by (cases ws) (simp add: ledger_ok_def mark_found_def)

lemma read_elements_ledger: "ledger_ok e p ws \<Longrightarrow> ledger_ok e p (read_elements e (Some p) rs ws)"
  by (induction e "Some p" rs ws rule: read_elements.induct)
    (auto simp: add_url_ledger mark_found_ledger)

lemma fold_read_elements_ledger:
  "ledger_ok e p ws \<Longrightarrow> ledger_ok e p (fold (read_elements e (Some p)) rss ws)"
  by (induction rss arbitrary: ws) (auto simp: read_elements_ledger)

lemma read_script_ledger: "ledger_ok e p ws \<Longrightarrow> ledger_ok e p (read_script e (Some p) us ws)"
  by (induction us arbitrary: ws) (auto simp: add_url_ledger mark_found_ledger)

lemma ledger_ok_fields:
  "ledger_ok e p (w, s) \<Longrightarrow> image_urls s' = image_urls s \<Longrightarrow> url_index s' = url_index s \<Longrightarrow>
   ledger_ok e p (w, s')"
  by (simp add: ledger_ok_def)

lemma gallery_step_ledger:
  assumes "ledger_ok e p ws"
  shows "ledger_ok e p (fst (gallery_step e (Some p) mi obs ws))"
proof -
  obtain w s where ws: "ws = (w, s)" by (cases ws)
  let ?s0 = "s\<lparr>found_image := False\<rparr>"
  have 0: "ledger_ok e p (w, ?s0)" using assms ws by (simp add: ledger_ok_def)
  obtain w1 s1 where f1: "fold (read_elements e (Some p)) (take 6 (selector_reads obs)) (w, ?s0) = (w1, s1)"
    by (cases "fold (read_elements e (Some p)) (take 6 (selector_reads obs)) (w, ?s0)")
  have 1: "ledger_ok e p (w1, s1)" using fold_read_elements_ledger[OF 0] f1 by metis
  let ?ws2 = "if \<not> found_image s1
              then (case script_imgs obs of None \<Rightarrow> (w1, s1)
                    | Some all_imgs \<Rightarrow> read_script e (Some p) all_imgs (w1, s1))
              else (w1, s1)"
  obtain w2 s2 where f2: "?ws2 = (w2, s2)" by (cases ?ws2)
  have 2: "ledger_ok e p (w2, s2)"
  proof (cases "\<not> found_image s1 \<and> script_imgs obs \<noteq> None")
    case True
    then obtain all_imgs where "script_imgs obs = Some all_imgs" by auto
    with True f2 have "read_script e (Some p) all_imgs (w1, s1) = (w2, s2)" by simp
    with read_script_ledger[OF 1, of all_imgs] show ?thesis by simp
  next
    case False
    with f2 have "(w2, s2) = (w1, s1)" by (auto split: if_splits option.splits)
    with 1 show ?thesis by simp
  qed
  obtain w3 s3 r where g: "gallery_step e (Some p) mi obs (w, s) = ((w3, s3), r)"
    by (cases "gallery_step e (Some p) mi obs (w, s)") auto
  from g f1 f2 have "w3 = w2 \<and> image_urls s3 = image_urls s2 \<and> url_index s3 = url_index s2"
    by (auto simp: gallery_step_def Let_def split: if_splits)
  with 2 have "ledger_ok e p (w3, s3)" by (auto intro: ledger_ok_fields)
  with g ws show ?thesis by simp
qed

lemma gallery_loop_ledger:
  "ledger_ok e p ws \<Longrightarrow> ledger_ok e p (fst (gallery_loop e (Some p) mi sts ws))"
proof (induction sts arbitrary: ws)
  case Nil
  then show ?case by simp
next
  case (Cons obs sts)
  obtain ws1 r where g: "gallery_step e (Some p) mi obs ws = (ws1, r)"
    by (cases "gallery_step e (Some p) mi obs ws")
  have 1: "ledger_ok e p ws1" using gallery_step_ledger[OF Cons.prems, of mi obs] g by simp
  show ?case
  proof (cases r)
    case None
    with g Cons.IH[OF 1] show ?thesis by simp
  next
    case (Some why)
    with g 1 show ?thesis by simp
  qed
qed

lemma add_url_None: "fst (add_url e None u ws) = fst ws \<and>
   (distinct (image_urls (snd ws)) \<longrightarrow> distinct (image_urls (snd (add_url e None u ws))))"
  by (cases ws) (auto simp: add_url_def Let_def)

lemma add_script_url_None: "fst (add_script_url e None u ws) = fst ws \<and>
   (distinct (image_urls (snd ws)) \<longrightarrow> distinct (image_urls (snd (add_script_url e None u ws))))"
  by (cases ws) (auto simp: add_script_url_def Let_def)

lemma direct_script_None: "fst (direct_script e None us ws) = fst ws \<and>
   (distinct (image_urls (snd ws)) \<longrightarrow> distinct (image_urls (snd (direct_script e None us ws))))"
proof (induction us arbitrary: ws)
  case Nil
  then show ?case by simp
next
  case (Cons u us)
  show ?case
    using Cons.IH[of ws] Cons.IH[of "add_script_url e None (sub_dims (is_decimal e) u) ws"]
      add_script_url_None[of e "sub_dims (is_decimal e) u" ws]
    by auto
qed

lemma direct_elements_None: "fst (direct_elements e None rs ws) = fst ws \<and>
   (distinct (image_urls (snd ws)) \<longrightarrow> distinct (image_urls (snd (direct_elements e None rs ws))))"
proof (induction e "None :: path option" rs ws rule: direct_elements.induct)
  case (6 e url rest ws)
  show ?case
    using 6 add_url_None[of e "sub_dims (is_decimal e) url" ws]
    by auto
qed auto

lemma fold_direct_elements_None: "fst (fold (direct_elements e None) rss ws) = fst ws \<and>
   (distinct (image_urls (snd ws)) \<longrightarrow> distinct (image_urls (snd (fold (direct_elements e None) rss ws))))"
proof (induction rss arbitrary: ws)
  case Nil
  then show ?case by simp
next
  case (Cons rs rss)
  show ?case using Cons.IH[of "direct_elements e None rs ws"] direct_elements_None[of e rs ws]
    by auto
qed

lemma extract_images_direct_None:
  "extract_images_direct e None obs w = (w', urls) \<Longrightarrow> w' = w \<and> distinct urls"
proof -
  assume a: "extract_images_direct e None obs w = (w', urls)"
  show ?thesis
  proof (cases "js_images obs")
    case None
    with a show ?thesis by (auto simp: extract_images_direct_def list_of_set_Nil)
  next
    case (Some imgs)
    obtain w1 s1 where d: "direct_script e None imgs (w, initial_state) = (w1, s1)"
      by (cases "direct_script e None imgs (w, initial_state)")
    from direct_script_None[of e imgs "(w, initial_state)"] d
    have 1: "w1 = w" "distinct (image_urls s1)" by (simp_all add: initial_state_def)
    let ?ws2 = "if length (image_urls s1) < 5
                then fold (direct_elements e None) (take 4 (css_reads obs)) (w1, s1) else (w1, s1)"
    obtain w2 s2 where f: "?ws2 = (w2, s2)" by (cases ?ws2)
    from fold_direct_elements_None[of e "take 4 (css_reads obs)" "(w1, s1)"] f 1
    have 2: "w2 = w" "distinct (image_urls s2)" by (auto split: if_splits)
    from a Some d f have "w' = w2" "urls = list_of_set e (image_urls s2)"
      by (simp_all add: extract_images_direct_def)
    with 2 show ?thesis by (simp add: list_of_set_facts)
  qed
qed

lemma save_enumerated_ledger:
  "ledger_entries (save_enumerated e p i us w) p =
     ledger_entries w p @ kept e p (zip [i + 1..<i + 1 + length us] us)"
proof (induction us arbitrary: i w)
  case Nil
  then show ?case by (simp add: kept_def)
next
  case (Cons u us)
  have "[i + 1..<i + 1 + length (u # us)] = (i + 1) # [i + 1 + 1..<i + 1 + 1 + length us]"
    by (simp del: upt_Suc add: upt_conv_Cons)
  then have z: "zip [i + 1..<i + 1 + length (u # us)] (u # us) =
           (i + 1, u) # zip [i + 1 + 1..<i + 1 + 1 + length us] us"
    by simp
  show ?case
    using Cons.IH[of "i + 1" "fst (save_url_to_csv e p u (i + 1) w)"]
    by (simp only: save_enumerated.simps z) (simp add: ledger_after_save kept_def)
qed

lemma create_csv_file_fresh:
  "create_csv_file sc e name w = Some (p, w0) \<Longrightarrow>
   p = csv_file_path sc e name \<and> ledger_entries w0 p = []"
  by (auto simp: create_csv_file_def Let_def ledger_entries_def split: option.splits if_splits)

lemma extract_ledger:
  assumes sv: "save_csv sc" "name \<noteq> []"
    and ex: "extract_image_urls sc e obs mi (Some name) w = (w', Returns (urls, why))"
  shows "\<exists>found. distinct found \<and>
           (if in_gallery obs then urls = list_of_set e found else found = urls) \<and>
           ledger_entries w' (csv_file_path sc e name) =
             kept e (csv_file_path sc e name) (numbered found)"
proof -
  let ?p = "csv_file_path sc e name"
  from ex sv obtain p w0 where c: "create_csv_file sc e name w = Some (p, w0)"
    by (cases "create_csv_file sc e name w") (auto simp: extract_image_urls_def)
  from create_csv_file_fresh[OF c] have p: "p = ?p" and fresh: "ledger_entries w0 ?p = []" by auto
  show ?thesis
  proof (cases "in_gallery obs")
    case False
    obtain w1 us where d: "extract_images_direct e None (direct obs) w0 = (w1, us)"
      by (cases "extract_images_direct e None (direct obs) w0")
    from extract_images_direct_None[OF d] have 1: "w1 = w0" "distinct us" by simp_all
    from ex sv c d False p have "w' = save_enumerated e ?p 0 us w1" "urls = us"
      by (auto simp: extract_image_urls_def)
    with 1 fresh save_enumerated_ledger[of e ?p 0 us w0]
    have "distinct urls \<and> ledger_entries w' ?p = kept e ?p (numbered urls)"
      by (simp add: numbered_def)
    with False show ?thesis by auto
  next
    case True
    have 0: "ledger_ok e ?p (w0, initial_state)"
      using fresh by (simp add: ledger_ok_def initial_state_def numbered_def kept_def)
    obtain w1 s1 r where g: "gallery_loop e (Some ?p) mi (steps obs) (w0, initial_state) = ((w1, s1), r)"
      by (cases "gallery_loop e (Some ?p) mi (steps obs) (w0, initial_state)") auto
    from gallery_loop_ledger[OF 0, of mi "steps obs"] g have 1: "ledger_ok e ?p (w1, s1)" by simp
    from ex sv c g True p have "w' = w1 \<and> urls = list_of_set e (image_urls s1)"
      by (cases r) (auto simp: extract_image_urls_def)
    with 1 have "distinct (image_urls s1) \<and> urls = list_of_set e (image_urls s1) \<and>
        ledger_entries w' ?p = kept e ?p (numbered (image_urls s1))"
      by (simp add: ledger_ok_def)
    with True show ?thesis by auto
  qed
qed

lemma kept_all: "\<forall>i. \<not> append_fails e p i \<Longrightarrow> kept e p xs = xs"
  by (simp add: kept_def)

lemma numbered_maps: "map fst (numbered urls) = [1..<length urls + 1] \<and> map snd (numbered urls) = urls"
  by (simp del: upt_Suc add: numbered_def)

lemma two_photos_run:
  "\<forall>p. \<not> create_fails e p \<Longrightarrow> \<forall>p. \<not> makedirs_fails e p \<Longrightarrow> is_decimal e = ascii_digit \<Longrightarrow>
   snd (extract_image_urls sample_scraper e two_photos None (Some (py ''Cafe'')) empty_world) =
     Returns (list_of_set e [sub_dims ascii_digit photo_a, sub_dims ascii_digit photo_b], Some No_Next)"
proof -
  assume a: "\<forall>p. \<not> create_fails e p" "\<forall>p. \<not> makedirs_fails e p" "is_decimal e = ascii_digit"
  have ne: "sub_dims ascii_digit photo_a \<noteq> sub_dims ascii_digit photo_b"
    by (simp add: photo_facts py_def)
  have cafe: "py ''Cafe'' \<noteq> []" by (simp add: py_def)
  have c: "create_csv_file sample_scraper e (py ''Cafe'') empty_world \<noteq> None"
    using a by (simp add: create_csv_file_def ensure_dir_def path_exists_def empty_world_def Let_def)
  then obtain p w0 where c': "create_csv_file sample_scraper e (py ''Cafe'') empty_world = Some (p, w0)"
    by auto
  have g: "snd (gallery_loop e (Some p) None (steps two_photos) (w0, initial_state)) = Some No_Next \<and>
           image_urls (snd (fst (gallery_loop e (Some p) None (steps two_photos) (w0, initial_state)))) =
             [sub_dims ascii_digit photo_a, sub_dims ascii_digit photo_b]"
    using ne a(3)
    by (simp add: two_photos_def gallery_step_def initial_state_def photo_facts add_url_def
        mark_found_def cap_reached_def Let_def split_beta)
  obtain w1 s1 r where gl: "gallery_loop e (Some p) None (steps two_photos) (w0, initial_state) = ((w1, s1), r)"
    by (cases "gallery_loop e (Some p) None (steps two_photos) (w0, initial_state)") auto
  with g have "r = Some No_Next" "image_urls s1 = [sub_dims ascii_digit photo_a, sub_dims ascii_digit photo_b]"
    by simp_all
  with gl c' cafe show ?thesis
    by (simp add: extract_image_urls_def sample_scraper_def two_photos_def)
qed

lemma sample_env_facts:
  "\<forall>p. \<not> create_fails calm_env p" "\<forall>p. \<not> makedirs_fails calm_env p" "is_decimal calm_env = ascii_digit"
  "\<forall>p. \<not> create_fails first_append_fails p" "\<forall>p. \<not> makedirs_fails first_append_fails p"
  "is_decimal first_append_fails = ascii_digit"
  "\<forall>p i. \<not> append_fails calm_env p i" "\<forall>p i. append_fails first_append_fails p i = (i = 1)"
  "\<forall>p. \<not> create_fails newest_first p" "\<forall>p. \<not> makedirs_fails newest_first p"
  "is_decimal newest_first = ascii_digit" "\<forall>p i. \<not> append_fails newest_first p i"
  by (simp_all add: calm_env_def first_append_fails_def newest_first_def)

lemma list_of_set_first_append_fails: "list_of_set first_append_fails xs = xs"
  by (simp add: list_of_set_def first_append_fails_def calm_env_def sort_key_const)

lemma list_of_set_newest_first:
  "a \<noteq> b \<Longrightarrow> list_of_set newest_first [a, b] = [b, a]"
  by (simp add: list_of_set_def newest_first_def)

text \<open>
  C3, as stated, fails: in a run that finds two photos while the append of entry 1 fails,
  the run returns both URLs and the ledger holds the single index 2.
\<close>

theorem ledger_gap_counterexample:
  "save_csv sample_scraper \<and> py ''Cafe'' \<noteq> [] \<and>
   snd (extract_image_urls sample_scraper first_append_fails two_photos None (Some (py ''Cafe''))
          empty_world) =
     Returns ([sub_dims ascii_digit photo_a, sub_dims ascii_digit photo_b], Some No_Next) \<and>
   sub_dims ascii_digit photo_a \<noteq> sub_dims ascii_digit photo_b \<and>
   ledger_entries
     (fst (extract_image_urls sample_scraper first_append_fails two_photos None (Some (py ''Cafe''))
             empty_world))
     (csv_file_path sample_scraper first_append_fails (py ''Cafe'')) =
     [(2, sub_dims ascii_digit photo_b)]"
proof -
  let ?x = "extract_image_urls sample_scraper first_append_fails two_photos None (Some (py ''Cafe''))
          empty_world"
  let ?p = "csv_file_path sample_scraper first_append_fails (py ''Cafe'')"
  let ?a = "sub_dims ascii_digit photo_a" and ?b = "sub_dims ascii_digit photo_b"
  have sv: "save_csv sample_scraper" by (simp add: sample_scraper_def)
  have cafe: "py ''Cafe'' \<noteq> []" by (simp add: py_def)
  have ne: "?a \<noteq> ?b" by (simp add: photo_facts py_def)
  have g: "in_gallery two_photos" by (simp add: two_photos_def)
  have "snd ?x = Returns (list_of_set first_append_fails [?a, ?b], Some No_Next)"
    by (rule two_photos_run) (simp_all add: sample_env_facts)
  then have r: "snd ?x = Returns ([?a, ?b], Some No_Next)"
    by (simp only: list_of_set_first_append_fails)
  then have "?x = (fst ?x, Returns ([?a, ?b], Some No_Next))" by (cases ?x) simp
  from extract_ledger[OF sv cafe this] g
  obtain found where f: "[?a, ?b] = list_of_set first_append_fails found"
    and l: "ledger_entries (fst ?x) ?p = kept first_append_fails ?p (numbered found)"
    by auto
  from f have "found = [?a, ?b]" by (simp only: list_of_set_first_append_fails)
  with l have "ledger_entries (fst ?x) ?p = [(2, ?b)]"
    by (simp add: kept_def numbered_def sample_env_facts)
  with sv cafe r ne show ?thesis by simp
qed

text \<open>
  C3, amended. For every extraction run that returns with the ledger enabled, in the
  gallery loop and in the direct-scan fallback: the returned URLs are distinct; they are
  the URLs found, listed in the order in which Python iterates over the set, which need
  not be the order of discovery. The ledger holds, in order, exactly the entries
  \<open>(i, u\<^sub>i)\<close>, \<open>i\<close> from 1 to the number of URLs, whose append did not fail, where
  \<open>u\<^sub>1, u\<^sub>2, \<dots>\<close> are the URLs in the order of discovery (gallery loop) or in the order
  of the returned list (direct scan). So when no append fails the indices are 1 to N
  with no gap and no repeat, and each returned URL is appended once.
\<close>

theorem ledger_indices_contiguous:
  assumes "save_csv sc" and "name \<noteq> []"
    and "extract_image_urls sc e obs mi (Some name) w = (w', Returns (urls, why))"
  shows "distinct urls \<and>
         (\<exists>found. distinct found \<and> set found = set urls \<and> length found = length urls \<and>
            (in_gallery obs \<longrightarrow> urls = list_of_set e found) \<and>
            (\<not> in_gallery obs \<longrightarrow> found = urls) \<and>
            ledger_entries w' (csv_file_path sc e name) =
              kept e (csv_file_path sc e name) (numbered found)) \<and>
         ((\<forall>i. \<not> append_fails e (csv_file_path sc e name) i) \<longrightarrow>
            map fst (ledger_entries w' (csv_file_path sc e name)) = [1..<length urls + 1] \<and>
            distinct (map snd (ledger_entries w' (csv_file_path sc e name))) \<and>
            set (map snd (ledger_entries w' (csv_file_path sc e name))) = set urls \<and>
            (\<not> in_gallery obs \<longrightarrow>
               map snd (ledger_entries w' (csv_file_path sc e name)) = urls))"
proof -
  let ?p = "csv_file_path sc e name"
  from extract_ledger[OF assms] obtain found where d: "distinct found"
    and o: "if in_gallery obs then urls = list_of_set e found else found = urls"
    and l: "ledger_entries w' ?p = kept e ?p (numbered found)"
    by blast
  have s: "set found = set urls" "length found = length urls" "distinct urls"
    using o d by (auto simp: list_of_set_facts split: if_splits)
  have o1: "in_gallery obs \<longrightarrow> urls = list_of_set e found" using o by simp
  have o2: "\<not> in_gallery obs \<longrightarrow> found = urls" using o by simp
  have all: "map fst (ledger_entries w' ?p) = [1..<length urls + 1] \<and>
             distinct (map snd (ledger_entries w' ?p)) \<and>
             set (map snd (ledger_entries w' ?p)) = set urls \<and>
             (\<not> in_gallery obs \<longrightarrow> map snd (ledger_entries w' ?p) = urls)"
    if "\<forall>i. \<not> append_fails e ?p i"
  proof -
    have k: "ledger_entries w' ?p = numbered found" using l that by (simp add: kept_all)
    have f: "map fst (ledger_entries w' ?p) = [1..<length found + 1]"
      and sn: "map snd (ledger_entries w' ?p) = found"
      unfolding k by (simp_all only: numbered_maps)
    from f have "map fst (ledger_entries w' ?p) = [1..<length urls + 1]" by (simp only: s(2))
    with sn d s o2 show ?thesis by simp
  qed
  from s d o1 o2 l all show ?thesis by blast
qed

theorem ledger_indices_contiguous_witness:
  "save_csv sample_scraper \<and> py ''Cafe'' \<noteq> [] \<and>
   (\<forall>i. \<not> append_fails newest_first (csv_file_path sample_scraper newest_first (py ''Cafe'')) i) \<and>
   snd (extract_image_urls sample_scraper newest_first two_photos None (Some (py ''Cafe'')) empty_world) =
     Returns ([sub_dims ascii_digit photo_b, sub_dims ascii_digit photo_a], Some No_Next) \<and>
   map fst (ledger_entries
     (fst (extract_image_urls sample_scraper newest_first two_photos None (Some (py ''Cafe'')) empty_world))
     (csv_file_path sample_scraper newest_first (py ''Cafe''))) = [1, 2] \<and>
   distinct (map snd (ledger_entries
     (fst (extract_image_urls sample_scraper newest_first two_photos None (Some (py ''Cafe'')) empty_world))
     (csv_file_path sample_scraper newest_first (py ''Cafe'')))) \<and>
   set (map snd (ledger_entries
     (fst (extract_image_urls sample_scraper newest_first two_photos None (Some (py ''Cafe'')) empty_world))
     (csv_file_path sample_scraper newest_first (py ''Cafe'')))) =
     {sub_dims ascii_digit photo_a, sub_dims ascii_digit photo_b}"
proof -
  let ?x = "extract_image_urls sample_scraper newest_first two_photos None (Some (py ''Cafe'')) empty_world"
  let ?p = "csv_file_path sample_scraper newest_first (py ''Cafe'')"
  let ?a = "sub_dims ascii_digit photo_a" and ?b = "sub_dims ascii_digit photo_b"
  have sv: "save_csv sample_scraper" by (simp add: sample_scraper_def)
  have cafe: "py ''Cafe'' \<noteq> []" by (simp add: py_def)
  have ok: "\<forall>i. \<not> append_fails newest_first ?p i" by (simp add: sample_env_facts)
  have ne: "?a \<noteq> ?b" by (simp add: photo_facts py_def)
  have "snd ?x = Returns (list_of_set newest_first [?a, ?b], Some No_Next)"
    by (rule two_photos_run) (simp_all add: sample_env_facts)
  then have r: "snd ?x = Returns ([?b, ?a], Some No_Next)"
    by (simp only: list_of_set_newest_first[OF ne])
  then have x: "?x = (fst ?x, Returns ([?b, ?a], Some No_Next))" by (cases ?x) simp
  have u: "[1..<length [?b, ?a] + 1] = [1, 2]" by (simp add: upt_rec)
  have st: "set [?b, ?a] = {?a, ?b}" by auto
  from ledger_indices_contiguous[OF sv cafe x] ok
  have "map fst (ledger_entries (fst ?x) ?p) = [1..<length [?b, ?a] + 1]"
    and d: "distinct (map snd (ledger_entries (fst ?x) ?p))"
    and s: "set (map snd (ledger_entries (fst ?x) ?p)) = set [?b, ?a]"
    by blast+
  then have f: "map fst (ledger_entries (fst ?x) ?p) = [1, 2]" by (simp only: u)
  from s have s': "set (map snd (ledger_entries (fst ?x) ?p)) = {?a, ?b}" by (simp only: st)
  from sv cafe ok r f d s' show ?thesis by blast
qed
end
